theory Spec2Isabelle
  imports Main "HOL-Library.Word" "HOL-Library.Product_Lexorder"
begin

unbundle bit_operations_syntax

section \<open>Machine types and errors\<close>

type_synonym u8 = "8 word"
type_synonym u32 = "32 word"

text \<open>
  Every way in which the modelled functions stop without a result:
  \<^item> \<open>IndexOutOfBounds\<close>: an \<open>Array\<close> element access past the end;
  \<^item> \<open>AssertFailed\<close>: a failed \<open>CE_ASSERT\<close>, with its message;
  \<^item> \<open>Fatal\<close>: \<open>CE_FATAL\<close>, with its message;
  \<^item> \<open>CompileError\<close>: a failed \<open>DATA_COMPILER_ASSERT\<close>, with its message;
  \<^item> \<open>SlotOutOfBounds\<close>: an access to a C array (\<open>prefabs[4]\<close>) past its fixed size,
    with the offending slot number.
\<close>

datatype error =
    IndexOutOfBounds
  | AssertFailed string
  | Fatal string
  | CompileError string
  | SlotOutOfBounds nat

text \<open>
  Modelled from the spec: \<open>Array<T>::operator[]\<close> (core/containers/array.h) is not among
  the source files. The spec's generation table is an ordered sequence with one counter
  for each slot ever allocated: an access inside the array yields the element, and an
  access past the end finds no element and stops with \<open>IndexOutOfBounds\<close>.
\<close>

definition array_get :: "'a list \<Rightarrow> nat \<Rightarrow> error + 'a" where
  "array_get xs i = (if i < length xs then Inr (xs ! i) else Inl IndexOutOfBounds)"

section \<open>UnitManager (src/world/unit_manager.cpp)\<close>

subsection \<open>UnitId\<close>

text \<open>
  Modelled from the spec: \<open>UnitId\<close> (world/types.h) is not among the source files.
  The spec gives a 32-bit value packed from a 24-bit index and an 8-bit generation;
  \<open>make_unit\<close> below puts the index in the low bits.
\<close>

datatype UnitId = UnitId (raw: u32)

text \<open>
  Modelled from the spec: the constant \<open>UNIT_INDEX_BITS\<close> (world/types.h), the width of the
  index, 24 bits.
\<close>

definition UNIT_INDEX_BITS :: nat where
  "UNIT_INDEX_BITS = 24"

text \<open>
  Modelled from the spec: the accessor \<open>UnitId::index()\<close> (world/types.h), the low
  \<open>UNIT_INDEX_BITS\<close> bits of the id.
\<close>

definition index :: "UnitId \<Rightarrow> u32" where
  "index uid = take_bit UNIT_INDEX_BITS (raw uid)"

text \<open>
  Modelled from the spec: the accessor \<open>UnitId::id()\<close> (world/types.h), the generation
  held by the bits above the index.
\<close>

definition id_gen :: "UnitId \<Rightarrow> u32" where
  "id_gen uid = drop_bit UNIT_INDEX_BITS (raw uid)"

definition MINIMUM_FREE_INDICES :: nat where
  "MINIMUM_FREE_INDICES = 1024"

text \<open>\<open>UnitId id = { 0 | idx | u32(gen) << UNIT_INDEX_BITS }\<close>\<close>

definition make_unit :: "u32 \<Rightarrow> u8 \<Rightarrow> UnitId" where
  "make_unit idx gen = UnitId (0 OR idx OR push_bit UNIT_INDEX_BITS (ucast gen :: u32))"

subsection \<open>State\<close>

text \<open>
  A destroy callback is a function pointer called with the id and its context; what it does
  happens outside the manager, in a world of type \<open>'w\<close> that it transforms.
  The context pointer \<open>void* user_data\<close> is an address.
\<close>

record 'w DestroyData =
  dd_destroy :: "UnitId \<Rightarrow> nat \<Rightarrow> 'w \<Rightarrow> 'w"
  user_data :: nat

record 'w UnitManager =
  generation :: "u8 list"
  free_indices :: "u32 list"
  destroy_callbacks :: "'w DestroyData list"

definition unit_manager_init :: "'w UnitManager" where
  "unit_manager_init = \<lparr> generation = [], free_indices = [], destroy_callbacks = [] \<rparr>"

subsection \<open>Operations\<close>

text \<open>
  \<open>create\<close>: a queue of more than \<open>MINIMUM_FREE_INDICES\<close> entries gives its front index;
  otherwise a slot with generation 0 is appended, its index is the new size minus one (an
  \<open>u32\<close>) and must be below \<open>1 << UNIT_INDEX_BITS\<close>. The id packs the index with
  \<open>_generation[idx]\<close>.
\<close>

definition create :: "'w UnitManager \<Rightarrow> error + (UnitId \<times> 'w UnitManager)" where
  "create m =
    (if length (free_indices m) > MINIMUM_FREE_INDICES then
       (let idx = hd (free_indices m);
            m' = m\<lparr>free_indices := tl (free_indices m)\<rparr>
        in case array_get (generation m') (unat idx) of
             Inl e \<Rightarrow> Inl e
           | Inr g \<Rightarrow> Inr (make_unit idx g, m'))
     else
       (let m' = m\<lparr>generation := generation m @ [0]\<rparr>;
            idx = (word_of_nat (length (generation m') - 1) :: u32)
        in if idx < push_bit UNIT_INDEX_BITS 1 then
             (case array_get (generation m') (unat idx) of
                Inl e \<Rightarrow> Inl e
              | Inr g \<Rightarrow> Inr (make_unit idx g, m'))
           else Inl (AssertFailed ''Indices out of bounds'')))"

text \<open>\<open>alive\<close>: \<open>_generation[id.index()] == id.id()\<close>, the \<open>u8\<close> widened for the comparison.\<close>

definition alive :: "'w UnitManager \<Rightarrow> UnitId \<Rightarrow> error + bool" where
  "alive m uid =
    (case array_get (generation m) (unat (index uid)) of
       Inl e \<Rightarrow> Inl e
     | Inr g \<Rightarrow> Inr ((ucast g :: u32) = id_gen uid))"

text \<open>
  \<open>trigger_destroy_callbacks\<close>: the loop \<open>for (i = 0; i < size; ++i)\<close> calls entry \<open>i\<close> with
  the id and the entry's own context.
\<close>

function trigger_loop :: "'w DestroyData list \<Rightarrow> UnitId \<Rightarrow> nat \<Rightarrow> 'w \<Rightarrow> 'w" where
  "trigger_loop cbs uid i w =
    (if i < length cbs
     then trigger_loop cbs uid (Suc i) (dd_destroy (cbs ! i) uid (user_data (cbs ! i)) w)
     else w)"
  by pat_completeness auto
termination
  by (relation "measure (\<lambda>(cbs, uid, i, w). length cbs - i)") auto

declare trigger_loop.simps [simp del]

definition trigger_destroy_callbacks :: "'w UnitManager \<Rightarrow> UnitId \<Rightarrow> 'w \<Rightarrow> 'w" where
  "trigger_destroy_callbacks m uid w = trigger_loop (destroy_callbacks m) uid 0 w"

text \<open>
  \<open>destroy\<close>: \<open>++_generation[idx]\<close> (an \<open>u8\<close>, wrapping), the index goes to the back of the
  queue, then the callbacks run.
\<close>

definition destroy :: "'w UnitManager \<Rightarrow> UnitId \<Rightarrow> 'w \<Rightarrow> error + ('w UnitManager \<times> 'w)" where
  "destroy m uid w =
    (let idx = index uid in
     case array_get (generation m) (unat idx) of
       Inl e \<Rightarrow> Inl e
     | Inr g \<Rightarrow>
         (let m' = m\<lparr>generation := (generation m)[unat idx := g + 1],
                     free_indices := free_indices m @ [idx]\<rparr>
          in Inr (m', trigger_destroy_callbacks m' uid w)))"

definition register_destroy_function ::
  "'w UnitManager \<Rightarrow> (UnitId \<Rightarrow> nat \<Rightarrow> 'w \<Rightarrow> 'w) \<Rightarrow> nat \<Rightarrow> 'w UnitManager" where
  "register_destroy_function m fn ud =
    m\<lparr>destroy_callbacks := destroy_callbacks m @ [\<lparr> dd_destroy = fn, user_data = ud \<rparr>]\<rparr>"

text \<open>
  \<open>unregister_destroy_function\<close>: the first entry with the given context is overwritten by
  the last one and the array shrinks by one; no such entry is \<open>CE_FATAL\<close>.
\<close>

fun unregister_loop :: "'w DestroyData list \<Rightarrow> nat \<Rightarrow> nat \<Rightarrow> nat \<Rightarrow> error + 'w DestroyData list" where
  "unregister_loop cbs ud i 0 = Inl (Fatal ''Unknown destroy function'')"
| "unregister_loop cbs ud i (Suc k) =
    (if user_data (cbs ! i) = ud
     then Inr (butlast (cbs[i := cbs ! (length cbs - 1)]))
     else unregister_loop cbs ud (Suc i) k)"

definition unregister_destroy_function :: "'w UnitManager \<Rightarrow> nat \<Rightarrow> error + 'w UnitManager" where
  "unregister_destroy_function m ud =
    (case unregister_loop (destroy_callbacks m) ud 0 (length (destroy_callbacks m)) of
       Inl e \<Rightarrow> Inl e
     | Inr cbs \<Rightarrow> Inr (m\<lparr>destroy_callbacks := cbs\<rparr>))"

subsection \<open>Sequences of calls\<close>

datatype op = Create | Destroy UnitId

text \<open>Running a sequence of calls; the result lists the ids that the creates returned.\<close>

fun run :: "'w UnitManager \<Rightarrow> 'w \<Rightarrow> op list \<Rightarrow> error + (UnitId list \<times> 'w UnitManager \<times> 'w)" where
  "run m w [] = Inr ([], m, w)"
| "run m w (Create # ops) =
    (case create m of
       Inl e \<Rightarrow> Inl e
     | Inr (uid, m') \<Rightarrow>
         (case run m' w ops of
            Inl e \<Rightarrow> Inl e
          | Inr (ids, r) \<Rightarrow> Inr (uid # ids, r)))"
| "run m w (Destroy uid # ops) =
    (case destroy m uid w of
       Inl e \<Rightarrow> Inl e
     | Inr (m', w') \<Rightarrow> run m' w' ops)"

text \<open>
  The invariant of the two containers: the generation table holds at most
  \<open>1 << UNIT_INDEX_BITS\<close> slots, and every queued index is a slot of the table.
\<close>

definition manager_inv :: "'w UnitManager \<Rightarrow> bool" where
  "manager_inv m \<longleftrightarrow>
     length (generation m) \<le> 2 ^ UNIT_INDEX_BITS \<and>
     list_all (\<lambda>i. unat i < length (generation m)) (free_indices m)"

text \<open>The number of \<open>destroy\<close> calls of a sequence that hit slot \<open>i\<close>.\<close>

fun destroys_at :: "u32 \<Rightarrow> op list \<Rightarrow> nat" where
  "destroys_at i [] = 0"
| "destroys_at i (Create # ops) = destroys_at i ops"
| "destroys_at i (Destroy uid # ops) = (if index uid = i then 1 else 0) + destroys_at i ops"

text \<open>
  A client that keeps to the protocol: 1025 units are created and then destroyed, which
  fills the queue above the threshold; after that, 255 times over, each of the 1025 slots is
  recycled by a \<open>create\<close> and the id just returned is destroyed. Every \<open>destroy\<close> is
  given an id that is alive, once.
\<close>

definition NUM_SLOTS :: nat where
  "NUM_SLOTS = 1025"

definition fill_ops :: "op list" where
  "fill_ops = replicate NUM_SLOTS Create @
              map (\<lambda>i. Destroy (make_unit (word_of_nat i) 0)) [0..<NUM_SLOTS]"

definition round_ops :: "nat \<Rightarrow> op list" where
  "round_ops k = concat (map (\<lambda>i. [Create, Destroy (make_unit (word_of_nat i) (word_of_nat k))])
                             [0..<NUM_SLOTS])"

definition wrap_ops :: "op list" where
  "wrap_ops = fill_ops @ concat (map round_ops [1..<256])"

definition wrap_ids :: "UnitId list" where
  "wrap_ids = concat (map (\<lambda>k. map (\<lambda>i. make_unit (word_of_nat i) (word_of_nat k)) [0..<NUM_SLOTS])
                          [0..<256])"

text \<open>The manager with \<open>n\<close> slots of generation \<open>g\<close>, all of them queued in order.\<close>

definition all_free :: "nat \<Rightarrow> u8 \<Rightarrow> unit UnitManager" where
  "all_free n g = \<lparr> generation = replicate n g,
                    free_indices = map word_of_nat [0..<n],
                    destroy_callbacks = [] \<rparr>"

text \<open>
  A callback that records its call: the tag of the function, the id and the context it
  was given are appended to a log, which is the world it acts on.
\<close>

definition log_call :: "nat \<Rightarrow> UnitId \<Rightarrow> nat \<Rightarrow> (nat \<times> UnitId \<times> nat) list \<Rightarrow> (nat \<times> UnitId \<times> nat) list" where
  "log_call tag uid ud w = w @ [(tag, uid, ud)]"

text \<open>Registering a list of subscriptions, first to last.\<close>

fun register_all ::
  "'w UnitManager \<Rightarrow> ((UnitId \<Rightarrow> nat \<Rightarrow> 'w \<Rightarrow> 'w) \<times> nat) list \<Rightarrow> 'w UnitManager" where
  "register_all m [] = m"
| "register_all m ((fn, ud) # regs) = register_all (register_destroy_function m fn ud) regs"

section \<open>UnitCompiler (src/resource/unit_compiler.h)\<close>

subsection \<open>Data\<close>

type_synonym StringId32 = u32
type_synonym Buffer = "u8 list"

text \<open>
  \<open>CompileFunction\<close>: an encoder takes the JSON text of a component's \<open>data\<close> and returns
  its bytes, or stops with the message of a failed \<open>DATA_COMPILER_ASSERT\<close>. The layout of
  the bytes is the encoder's own business.
\<close>

type_synonym CompileFunction = "string \<Rightarrow> string + Buffer"

record ComponentTypeData =
  ctd_compiler :: CompileFunction
  ctd_num :: u32
  ctd_unit_index :: "u32 list"
  ctd_data :: Buffer

text \<open>
  \<open>ComponentTypeData(Allocator&)\<close>: count 0 and two empty arrays. The constructor leaves
  \<open>_compiler\<close> unset; the model gives it an encoder that always fails.
\<close>

definition ctd_default :: ComponentTypeData where
  "ctd_default = \<lparr> ctd_compiler = (\<lambda>json. Inl ''no compiler''), ctd_num = 0,
                   ctd_unit_index = [], ctd_data = [] \<rparr>"

text \<open>
  Modelled from the spec: \<open>ComponentTypeInfo\<close> and its \<open>operator<\<close> are not among the
  source files. The spec gives a pair of type hash and spawn priority, ordered by spawn
  priority with ties broken by hash. The priority is an \<open>f32\<close> that is only ever compared:
  it is modelled by any linear order \<open>'p\<close>.
\<close>

record 'p ComponentTypeInfo =
  cti_type :: StringId32
  cti_spawn_order :: 'p

text \<open>
  Modelled from the spec: \<open>ComponentTypeInfo::operator<\<close>, the order that \<open>std::sort\<close>
  sorts the listing by: the spawn priority first, the type hash among equal priorities.
  Sorting by this key is sorting by that order.
\<close>

definition cti_key :: "('p::linorder) ComponentTypeInfo \<Rightarrow> 'p \<times> StringId32" where
  "cti_key cti = (cti_spawn_order cti, cti_type cti)"

text \<open>
  Modelled from the spec: \<open>SortMap\<close> (core/containers/sort_map.h) is not among the source
  files. The spec has a sorted map keyed by type hash; it is an array of key-value pairs.
\<close>

type_synonym ComponentTypeMap = "(StringId32 \<times> ComponentTypeData) list"

text \<open>Modelled from the spec: \<open>sort_map::has\<close>, whether the map holds the key.\<close>

definition sort_map_has :: "ComponentTypeMap \<Rightarrow> StringId32 \<Rightarrow> bool" where
  "sort_map_has m k = (map_of m k \<noteq> None)"

text \<open>
  Modelled from the spec: \<open>sort_map::get\<close>, the value of the key, or the value given for
  the case that the key is absent.
\<close>

definition sort_map_get :: "ComponentTypeMap \<Rightarrow> StringId32 \<Rightarrow> ComponentTypeData \<Rightarrow> ComponentTypeData" where
  "sort_map_get m k deflt = (case map_of m k of None \<Rightarrow> deflt | Some v \<Rightarrow> v)"

text \<open>
  Modelled from the spec: \<open>sort_map::set\<close>, which replaces the value of a key that is
  present and appends the pair otherwise.
\<close>

fun sort_map_set :: "ComponentTypeMap \<Rightarrow> StringId32 \<Rightarrow> ComponentTypeData \<Rightarrow> ComponentTypeMap" where
  "sort_map_set [] k v = [(k, v)]"
| "sort_map_set ((k', v') # m) k v =
     (if k' = k then (k, v) # m else (k', v') # sort_map_set m k v)"

text \<open>Modelled from the spec: \<open>sort_map::sort\<close>, which orders the pairs by key.\<close>

definition sort_map_sort :: "ComponentTypeMap \<Rightarrow> ComponentTypeMap" where
  "sort_map_sort m = sort_key fst m"

record 'p UnitCompiler =
  num_units :: u32
  component_data :: ComponentTypeMap
  component_info :: "'p ComponentTypeInfo list"

text \<open>The compiler before any registration: the member initialisers of the constructor.\<close>

definition unit_compiler_empty :: "'p UnitCompiler" where
  "unit_compiler_empty = \<lparr> num_units = 0, component_data = [], component_info = [] \<rparr>"

subsection \<open>Registration\<close>

text \<open>
  \<open>register_component_compiler(StringId32, fn, spawn_order)\<close>: a fresh
  \<open>ComponentTypeData\<close> with the encoder is stored under the type and the map is sorted; the
  type and its priority are appended to the listing, which is sorted with \<open>std::sort\<close>.
\<close>

definition register_component_compiler ::
  "('p::linorder) UnitCompiler \<Rightarrow> StringId32 \<Rightarrow> CompileFunction \<Rightarrow> 'p \<Rightarrow> 'p UnitCompiler" where
  "register_component_compiler s type fn spawn_order =
    (let ctd = ctd_default\<lparr>ctd_compiler := fn\<rparr>;
         cti = \<lparr> cti_type = type, cti_spawn_order = spawn_order \<rparr>
     in s\<lparr>component_data := sort_map_sort (sort_map_set (component_data s) type ctd),
           component_info := sort_key cti_key (component_info s @ [cti])\<rparr>)"

text \<open>
  The constructor registers ten encoders by name. \<open>StringId32(const char*)\<close>, the hash of a
  name, and the encoders themselves are parameters: \<open>sid\<close> and \<open>enc\<close>.
\<close>

definition registered_names :: "(string \<times> nat) list" where
  "registered_names =
    [(''transform'', 0), (''camera'', 1), (''mesh_renderer'', 1), (''sprite_renderer'', 1),
     (''light'', 1), (''script'', 1), (''collider'', 1), (''actor'', 2), (''joint'', 3),
     (''animation_state_machine'', 1)]"

definition unit_compiler_new ::
  "(string \<Rightarrow> StringId32) \<Rightarrow> (string \<Rightarrow> CompileFunction) \<Rightarrow> nat UnitCompiler" where
  "unit_compiler_new sid enc =
    foldl (\<lambda>s (name, order). register_component_compiler s (sid name) (enc name) order)
      unit_compiler_empty registered_names"

subsection \<open>Compiling components\<close>

text \<open>
  Modelled from the spec: the macro \<open>DATA_COMPILER_ASSERT\<close> (resource/compile_options.h) is
  not among the source files. A failed assertion aborts the compilation under way with
  a compile error that carries the message.
\<close>

definition DATA_COMPILER_ASSERT :: "bool \<Rightarrow> string \<Rightarrow> error + unit" where
  "DATA_COMPILER_ASSERT condition msg = (if condition then Inr () else Inl (CompileError msg))"

text \<open>
  \<open>compile_component\<close>: the type must be in the map; its encoder is run on the JSON text.
  A failed assertion inside the encoder is a compile error as well.
\<close>

definition compile_component ::
  "'p UnitCompiler \<Rightarrow> StringId32 \<Rightarrow> string \<Rightarrow> error + Buffer" where
  "compile_component s type json =
    (case DATA_COMPILER_ASSERT (sort_map_has (component_data s) type) ''Unknown component'' of
       Inl e \<Rightarrow> Inl e
     | Inr _ \<Rightarrow>
         (case ctd_compiler (sort_map_get (component_data s) type ctd_default) json of
            Inl msg \<Rightarrow> Inl (CompileError msg)
          | Inr buf \<Rightarrow> Inr buf))"

text \<open>
  \<open>add_component_data\<close>: the bytes, the owner index and the count go to the entry of the
  type. For a type that the map does not hold, \<open>sort_map::get\<close> hands out the temporary
  default it was given, and the map stays as it is.
\<close>

definition add_component_data ::
  "'p UnitCompiler \<Rightarrow> StringId32 \<Rightarrow> Buffer \<Rightarrow> u32 \<Rightarrow> 'p UnitCompiler" where
  "add_component_data s type buf unit_idx =
    (if sort_map_has (component_data s) type then
       (let ctd = sort_map_get (component_data s) type ctd_default;
            ctd' = ctd\<lparr>ctd_data := ctd_data ctd @ buf,
                       ctd_unit_index := ctd_unit_index ctd @ [unit_idx],
                       ctd_num := ctd_num ctd + 1\<rparr>
        in s\<lparr>component_data := sort_map_set (component_data s) type ctd'\<rparr>)
     else s)"

subsection \<open>Unit documents and prefab chains\<close>

text \<open>
  A unit document as the SJSON parser hands it over: the entries of \<open>components\<close>, each
  with its \<open>id\<close> string, the hash of its \<open>type\<close> name and the JSON text of its \<open>data\<close>;
  the optional \<open>prefab\<close> path; the optional \<open>modified_components\<close> object, its pairs in
  the order in which the object is iterated.
\<close>

record component =
  c_id :: string
  c_type :: StringId32
  c_data :: string

record unit_doc =
  prefab :: "string option"
  modified_components :: "(string \<times> component) list option"
  components :: "component list"

text \<open>A \<open>JsonObject\<close> that nothing has been parsed into.\<close>

definition empty_doc :: unit_doc where
  "empty_doc = \<lparr> prefab = None, modified_components = None, components = [] \<rparr>"

definition UINT32_MAX :: nat where
  "UINT32_MAX = 4294967295"

text \<open>
  \<open>component_index\<close>: the first 36 characters of \<open>id\<close> are parsed as a GUID (\<open>guid::parse\<close>,
  the parameter \<open>gp\<close>); the result is the index of the first component whose own \<open>id\<close>
  parses to the same GUID, or \<open>UINT32_MAX\<close>. An \<open>id\<close> is the 36 characters of a GUID; for
  a shorter one \<open>strncpy\<close> would copy what follows it in the document, which the model
  leaves out.
\<close>

function component_index_loop :: "(string \<Rightarrow> 'g) \<Rightarrow> component list \<Rightarrow> 'g \<Rightarrow> nat \<Rightarrow> nat" where
  "component_index_loop gp comps idd i =
    (if i < length comps
     then (if gp (c_id (comps ! i)) = idd then i else component_index_loop gp comps idd (Suc i))
     else UINT32_MAX)"
  by pat_completeness auto
termination
  by (relation "measure (\<lambda>(gp, comps, idd, i). length comps - i)") auto

declare component_index_loop.simps [simp del]

definition component_index :: "(string \<Rightarrow> 'g) \<Rightarrow> component list \<Rightarrow> string \<Rightarrow> nat" where
  "component_index gp comps ident = component_index_loop gp comps (gp (take 36 ident)) 0"

text \<open>
  Modelled from the spec: \<open>CompileOptions\<close> and \<open>DATA_COMPILER_ASSERT_RESOURCE_EXISTS\<close> are
  not among the source files. The unit resources that exist are a map from the path
  named by a \<open>prefab\<close> field to the parsed document of the file \<open>path.unit\<close>; a path that
  names no resource aborts the compilation with a compile error naming the file.
\<close>

type_synonym unit_files = "string \<Rightarrow> unit_doc option"

definition countof_prefabs :: nat where
  "countof_prefabs = 4"

text \<open>
  The first loop of \<open>compile_unit_from_json\<close>: slot \<open>i\<close> of the array \<open>prefabs[4]\<close> holds
  level \<open>i\<close> of the chain, the document itself in slot 0. A level with a \<open>prefab\<close> field has
  its parent parsed into slot \<open>i + 1\<close>; a write past the array is the error
  \<open>SlotOutOfBounds\<close>. The result is the array and \<open>num_prefabs\<close>.
\<close>

function load_prefabs ::
  "unit_files \<Rightarrow> unit_doc list \<Rightarrow> nat \<Rightarrow> nat \<Rightarrow> error + (unit_doc list \<times> nat)" where
  "load_prefabs fs prefabs i num_prefabs =
    (if i < countof_prefabs then
       (case prefab (prefabs ! i) of
          None \<Rightarrow> Inr (prefabs, num_prefabs)
        | Some path \<Rightarrow>
            (case fs path of
               None \<Rightarrow> Inl (CompileError (''Resource not found: '' @ path @ ''.unit''))
             | Some d \<Rightarrow>
                 (if i + 1 < length prefabs
                  then load_prefabs fs (prefabs[i + 1 := d]) (i + 1) (num_prefabs + 1)
                  else Inl (SlotOutOfBounds (i + 1)))))
     else Inr (prefabs, num_prefabs))"
  by pat_completeness auto
termination
  by (relation "measure (\<lambda>(fs, prefabs, i, n). countof_prefabs - i)") auto

declare load_prefabs.simps [simp del]

text \<open>
  The inner loop of the merge: for each pair of a \<open>modified_components\<close> object, the key
  without its first character names a component of the original array; when one is found,
  the slot of that index in the working array takes the value.
\<close>

fun apply_modified ::
  "(string \<Rightarrow> 'g) \<Rightarrow> component list \<Rightarrow> (string \<times> component) list \<Rightarrow> component list \<Rightarrow> component list" where
  "apply_modified gp original [] working = working"
| "apply_modified gp original ((key, val) # rest) working =
    (let comp_index = component_index gp original (drop 1 key)
     in apply_modified gp original rest
          (if comp_index \<noteq> UINT32_MAX then working[comp_index := val] else working))"

text \<open>The outer loop: the levels from \<open>prefabs[num_prefabs - 1]\<close> down to \<open>prefabs[0]\<close>.\<close>

function merge_prefabs ::
  "(string \<Rightarrow> 'g) \<Rightarrow> unit_doc list \<Rightarrow> nat \<Rightarrow> component list \<Rightarrow> nat \<Rightarrow> component list \<Rightarrow> component list" where
  "merge_prefabs gp prefabs num_prefabs original i working =
    (if i < num_prefabs then
       (let p = prefabs ! (num_prefabs - i - 1)
        in merge_prefabs gp prefabs num_prefabs original (Suc i)
             (case modified_components p of
                None \<Rightarrow> working
              | Some mods \<Rightarrow> apply_modified gp original mods working))
     else working)"
  by pat_completeness auto
termination
  by (relation "measure (\<lambda>(gp, prefabs, n, original, i, working). n - i)") auto

declare merge_prefabs.simps [simp del]

text \<open>
  The part of \<open>compile_unit_from_json\<close> before the components are encoded: the chain is
  loaded, the components of its last level are taken twice, and the overrides are merged
  into the second copy when the chain has more than one level.
\<close>

definition resolve_prefabs :: "(string \<Rightarrow> 'g) \<Rightarrow> unit_files \<Rightarrow> unit_doc \<Rightarrow> error + component list" where
  "resolve_prefabs gp fs doc =
    (case load_prefabs fs ((replicate countof_prefabs empty_doc)[0 := doc]) 0 1 of
       Inl e \<Rightarrow> Inl e
     | Inr (prefabs, num_prefabs) \<Rightarrow>
         (let prefab_root = prefabs ! (num_prefabs - 1);
              prefab_root_components_original = components prefab_root;
              prefab_root_components = components prefab_root
          in Inr (if num_prefabs > 1
                  then merge_prefabs gp prefabs num_prefabs prefab_root_components_original 0
                         prefab_root_components
                  else prefab_root_components)))"

text \<open>
  The second part: each component is encoded and added under the current unit number. A
  compile error ends the loop; what was added to the compiler before stays added, so an
  aborted call returns the error together with the state it leaves.
\<close>

fun compile_components ::
  "'p UnitCompiler \<Rightarrow> component list \<Rightarrow> (error \<times> 'p UnitCompiler) + 'p UnitCompiler" where
  "compile_components s [] = Inr s"
| "compile_components s (c # cs) =
    (case compile_component s (c_type c) (c_data c) of
       Inl e \<Rightarrow> Inl (e, s)
     | Inr buf \<Rightarrow> compile_components (add_component_data s (c_type c) buf (num_units s)) cs)"

definition compile_unit_from_json ::
  "(string \<Rightarrow> 'g) \<Rightarrow> unit_files \<Rightarrow> 'p UnitCompiler \<Rightarrow> unit_doc \<Rightarrow>
   (error \<times> 'p UnitCompiler) + 'p UnitCompiler" where
  "compile_unit_from_json gp fs s doc =
    (case resolve_prefabs gp fs doc of
       Inl e \<Rightarrow> Inl (e, s)
     | Inr comps \<Rightarrow>
         (case compile_components s comps of
            Inl r \<Rightarrow> Inl r
          | Inr s' \<Rightarrow> Inr (s'\<lparr>num_units := num_units s' + 1\<rparr>)))"

fun compile_multiple_units ::
  "(string \<Rightarrow> 'g) \<Rightarrow> unit_files \<Rightarrow> 'p UnitCompiler \<Rightarrow> unit_doc list \<Rightarrow>
   (error \<times> 'p UnitCompiler) + 'p UnitCompiler" where
  "compile_multiple_units gp fs s [] = Inr s"
| "compile_multiple_units gp fs s (u # units) =
    (case compile_unit_from_json gp fs s u of
       Inl r \<Rightarrow> Inl r
     | Inr s' \<Rightarrow> compile_multiple_units gp fs s' units)"

subsection \<open>The resource blob\<close>

text \<open>
  \<open>array::push(buf, (char*)&x, sizeof(x))\<close> copies the bytes of \<open>x\<close> as they lie in memory.
  On the little-endian machines the compiler runs on, an \<open>u32\<close> is its four bytes from the
  lowest to the highest, and a struct of \<open>u32\<close> fields is its fields one after the other.
\<close>

definition le32 :: "u32 \<Rightarrow> Buffer" where
  "le32 w = [ucast w, ucast (drop_bit 8 w), ucast (drop_bit 16 w), ucast (drop_bit 24 w)]"

text \<open>
  Modelled from the spec: \<open>UnitResource\<close>, \<open>ComponentData\<close> and \<open>RESOURCE_VERSION_UNIT\<close>
  (resource/unit_resource.h, resource/types.h) are not among the source files. The spec
  gives a header of three \<open>u32\<close> (version, number of units, number of component types) and
  a sub-header of three \<open>u32\<close> (type hash, number of instances, section size), so that
  \<open>alignof(ComponentData)\<close> is 4. The version number is a parameter of \<open>blob\<close>.
\<close>

definition alignof_ComponentData :: u32 where
  "alignof_ComponentData = 4"

text \<open>The first loop of \<open>blob\<close>: the entries of the map with a count above 0 are counted.\<close>

definition count_component_types :: "ComponentTypeMap \<Rightarrow> u32" where
  "count_component_types m = fold (\<lambda>(k, ctd) n. if ctd_num ctd > 0 then n + 1 else n) m 0"

text \<open>
  What \<open>blob\<close> computes for one type: \<open>cd.size\<close> before the padding is added, the padding
  \<open>cd.size % alignof(cd)\<close>, and the bytes pushed: the sub-header with the padded size, the
  owner indices, the payload, and \<open>pad\<close> zero bytes.
\<close>

definition section_size :: "ComponentTypeData \<Rightarrow> u32" where
  "section_size ctd = word_of_nat (length (ctd_data ctd)) + 4 * word_of_nat (length (ctd_unit_index ctd))"

definition section_pad :: "ComponentTypeData \<Rightarrow> u32" where
  "section_pad ctd = section_size ctd mod alignof_ComponentData"

definition section_bytes :: "StringId32 \<Rightarrow> ComponentTypeData \<Rightarrow> Buffer" where
  "section_bytes type ctd =
    le32 type @ le32 (ctd_num ctd) @ le32 (section_size ctd + section_pad ctd) @
    concat (map le32 (ctd_unit_index ctd)) @
    ctd_data ctd @
    replicate (unat (section_pad ctd)) 0"

text \<open>The second loop of \<open>blob\<close>, over the listing, appending to the buffer.\<close>

fun blob_sections :: "ComponentTypeMap \<Rightarrow> 'p ComponentTypeInfo list \<Rightarrow> Buffer \<Rightarrow> Buffer" where
  "blob_sections m [] buf = buf"
| "blob_sections m (cti # ctis) buf =
    (let type = cti_type cti;
         ctd = sort_map_get m type ctd_default
     in blob_sections m ctis
          (if ctd_num ctd > 0 then buf @ section_bytes type ctd else buf))"

definition blob :: "u32 \<Rightarrow> 'p UnitCompiler \<Rightarrow> Buffer" where
  "blob version s =
    blob_sections (component_data s) (component_info s)
      (le32 version @ le32 (num_units s) @ le32 (count_component_types (component_data s)))"

subsection \<open>Reading a blob back\<close>

text \<open>
  The reader that the round-trip property of the spec describes, following the layout of
  its section 6: the header; then, \<open>num_component_types\<close> times, a sub-header, as many
  owner indices as it has instances, and section size minus four times the number of
  instances payload bytes.
\<close>

definition rd32 :: "Buffer \<Rightarrow> u32" where
  "rd32 bs = ucast (bs ! 0) OR push_bit 8 (ucast (bs ! 1)) OR push_bit 16 (ucast (bs ! 2))
             OR push_bit 24 (ucast (bs ! 3))"

definition read_u32 :: "Buffer \<Rightarrow> (u32 \<times> Buffer) option" where
  "read_u32 bs = (if length bs < 4 then None else Some (rd32 (take 4 bs), drop 4 bs))"

fun read_u32s :: "nat \<Rightarrow> Buffer \<Rightarrow> (u32 list \<times> Buffer) option" where
  "read_u32s 0 bs = Some ([], bs)"
| "read_u32s (Suc n) bs =
    (case read_u32 bs of
       None \<Rightarrow> None
     | Some (w, bs') \<Rightarrow>
         (case read_u32s n bs' of
            None \<Rightarrow> None
          | Some (ws, bs'') \<Rightarrow> Some (w # ws, bs'')))"

definition read_bytes :: "nat \<Rightarrow> Buffer \<Rightarrow> (Buffer \<times> Buffer) option" where
  "read_bytes n bs = (if length bs < n then None else Some (take n bs, drop n bs))"

record blob_section =
  sec_type :: StringId32
  sec_num_instances :: u32
  sec_owner_indices :: "u32 list"
  sec_payload :: Buffer

definition read_section :: "Buffer \<Rightarrow> (blob_section \<times> Buffer) option" where
  "read_section bs =
    (case read_u32 bs of None \<Rightarrow> None | Some (type, bs1) \<Rightarrow>
     case read_u32 bs1 of None \<Rightarrow> None | Some (n, bs2) \<Rightarrow>
     case read_u32 bs2 of None \<Rightarrow> None | Some (sz, bs3) \<Rightarrow>
     case read_u32s (unat n) bs3 of None \<Rightarrow> None | Some (owners, bs4) \<Rightarrow>
     if unat sz < unat n * 4 then None else
     case read_bytes (unat sz - unat n * 4) bs4 of None \<Rightarrow> None | Some (payload, bs5) \<Rightarrow>
       Some (\<lparr> sec_type = type, sec_num_instances = n, sec_owner_indices = owners,
               sec_payload = payload \<rparr>, bs5))"

fun read_sections :: "nat \<Rightarrow> Buffer \<Rightarrow> (blob_section list \<times> Buffer) option" where
  "read_sections 0 bs = Some ([], bs)"
| "read_sections (Suc k) bs =
    (case read_section bs of
       None \<Rightarrow> None
     | Some (sec, bs') \<Rightarrow>
         (case read_sections k bs' of
            None \<Rightarrow> None
          | Some (secs, bs'') \<Rightarrow> Some (sec # secs, bs'')))"

text \<open>The result: version, number of units, the sections, and the bytes left over.\<close>

definition read_blob :: "Buffer \<Rightarrow> (u32 \<times> u32 \<times> blob_section list \<times> Buffer) option" where
  "read_blob bs =
    (case read_u32 bs of None \<Rightarrow> None | Some (version, bs1) \<Rightarrow>
     case read_u32 bs1 of None \<Rightarrow> None | Some (n_units, bs2) \<Rightarrow>
     case read_u32 bs2 of None \<Rightarrow> None | Some (n_types, bs3) \<Rightarrow>
     case read_sections (unat n_types) bs3 of None \<Rightarrow> None | Some (secs, bs4) \<Rightarrow>
       Some (version, n_units, secs, bs4))"

subsection \<open>Overrides of one component\<close>

text \<open>
  The values that a level of the chain gives to the component with GUID \<open>g\<close>: those of the
  pairs of its \<open>modified_components\<close> whose key, without its first character, parses to
  \<open>g\<close>, in the order of the pairs.
\<close>

definition guid_overrides :: "(string \<Rightarrow> 'g) \<Rightarrow> unit_doc \<Rightarrow> 'g \<Rightarrow> component list" where
  "guid_overrides gp p g =
    (case modified_components p of
       None \<Rightarrow> []
     | Some mods \<Rightarrow> map snd (filter (\<lambda>(key, val). gp (take 36 (drop 1 key)) = g) mods))"

subsection \<open>What a set of units should produce\<close>

text \<open>
  Registering a list of types, each with its encoder and priority, first to last, as the
  constructor does with its ten.
\<close>

definition register_list ::
  "('p::linorder) UnitCompiler \<Rightarrow> (StringId32 \<times> CompileFunction \<times> 'p) list \<Rightarrow> 'p UnitCompiler" where
  "register_list s regs =
    foldl (\<lambda>s (type, fn, spawn_order). register_component_compiler s type fn spawn_order) s regs"

text \<open>The entries of the listing for which \<open>blob\<close> emits a section.\<close>

definition emitted_types :: "'p UnitCompiler \<Rightarrow> 'p ComponentTypeInfo list" where
  "emitted_types s =
    filter (\<lambda>cti. ctd_num (sort_map_get (component_data s) (cti_type cti) ctd_default) > 0)
      (component_info s)"

text \<open>
  The round-trip property compares what is read back with what the encoders produced. For
  a list of unit documents and a type \<open>t\<close> with encoder \<open>f\<close>, in the order of the units and,
  within a unit, of its flattened component list: the unit number of each component of type
  \<open>t\<close>, counted from \<open>u\<close>, and the bytes that \<open>f\<close> returns for these components, one after
  the other.
\<close>

definition unit_components :: "(string \<Rightarrow> 'g) \<Rightarrow> unit_files \<Rightarrow> unit_doc \<Rightarrow> component list" where
  "unit_components gp fs d = (case resolve_prefabs gp fs d of Inl e \<Rightarrow> [] | Inr comps \<Rightarrow> comps)"

definition encoded :: "CompileFunction \<Rightarrow> component \<Rightarrow> Buffer" where
  "encoded f c = (case f (c_data c) of Inl msg \<Rightarrow> [] | Inr buf \<Rightarrow> buf)"

fun expected_owners ::
  "(string \<Rightarrow> 'g) \<Rightarrow> unit_files \<Rightarrow> StringId32 \<Rightarrow> u32 \<Rightarrow> unit_doc list \<Rightarrow> u32 list" where
  "expected_owners gp fs t u [] = []"
| "expected_owners gp fs t u (d # ds) =
    replicate (length (filter (\<lambda>c. c_type c = t) (unit_components gp fs d))) u @
    expected_owners gp fs t (u + 1) ds"

fun expected_payload ::
  "(string \<Rightarrow> 'g) \<Rightarrow> unit_files \<Rightarrow> CompileFunction \<Rightarrow> StringId32 \<Rightarrow> unit_doc list \<Rightarrow> Buffer" where
  "expected_payload gp fs f t [] = []"
| "expected_payload gp fs f t (d # ds) =
    concat (map (encoded f) (filter (\<lambda>c. c_type c = t) (unit_components gp fs d))) @
    expected_payload gp fs f t ds"

text \<open>
  The section that a reader should find for an entry of the listing, from the entry of the
  type in the map: its count, its owner indices, and its payload followed by the padding
  that \<open>blob\<close> counts into the section size.
\<close>

definition stored_section :: "'p UnitCompiler \<Rightarrow> 'p ComponentTypeInfo \<Rightarrow> blob_section" where
  "stored_section s cti =
    (let ctd = sort_map_get (component_data s) (cti_type cti) ctd_default
     in \<lparr> sec_type = cti_type cti, sec_num_instances = ctd_num ctd,
          sec_owner_indices = ctd_unit_index ctd,
          sec_payload = ctd_data ctd @ replicate (unat (section_pad ctd)) 0 \<rparr>)"

subsection \<open>Example documents\<close>

text \<open>
  A chain of five levels: the unit \<open>deep_leaf\<close> names \<open>p1\<close>, which names \<open>p2\<close>, and so on to
  \<open>p4\<close>, which has no \<open>prefab\<close> field and one component.
\<close>

definition deep_files :: unit_files where
  "deep_files path =
    (if path = ''p1'' then Some \<lparr> prefab = Some ''p2'', modified_components = None, components = [] \<rparr>
     else if path = ''p2'' then Some \<lparr> prefab = Some ''p3'', modified_components = None, components = [] \<rparr>
     else if path = ''p3'' then Some \<lparr> prefab = Some ''p4'', modified_components = None, components = [] \<rparr>
     else if path = ''p4'' then
       Some \<lparr> prefab = None, modified_components = None,
              components = [\<lparr> c_id = ''a'', c_type = 1, c_data = ''{}'' \<rparr>] \<rparr>
     else None)"

definition deep_leaf :: unit_doc where
  "deep_leaf = \<lparr> prefab = Some ''p1'', modified_components = None, components = [] \<rparr>"

text \<open>
  An encoder that returns the characters of the JSON text as bytes, and a compiler with two
  types registered for it: type 1 with priority 0 and type 2 with priority 1.
\<close>

definition raw_encoder :: CompileFunction where
  "raw_encoder json = Inr (map (\<lambda>c. word_of_nat (of_char c)) json)"

definition two_type_compiler :: "nat UnitCompiler" where
  "two_type_compiler =
    register_component_compiler
      (register_component_compiler unit_compiler_empty 2 raw_encoder 1) 1 raw_encoder 0"

text \<open>A unit with a component of type 1 followed by a component of the unregistered type 99.\<close>

definition unknown_type_unit :: unit_doc where
  "unknown_type_unit =
    \<lparr> prefab = None, modified_components = None,
      components = [\<lparr> c_id = ''a'', c_type = 1, c_data = ''A'' \<rparr>,
                    \<lparr> c_id = ''b'', c_type = 99, c_data = ''B'' \<rparr>] \<rparr>"

text \<open>
  A chain of three levels. The unit \<open>child_unit\<close> names \<open>parent\<close>, which names \<open>grand\<close>. The
  last level has the components A and B; it overrides B itself, and \<open>parent\<close> overrides B
  with another value.
\<close>

definition guid_A :: string where
  "guid_A = ''00000000-0000-0000-0000-00000000000a''"

definition guid_B :: string where
  "guid_B = ''00000000-0000-0000-0000-00000000000b''"

definition comp_A :: component where
  "comp_A = \<lparr> c_id = guid_A, c_type = 1, c_data = ''A'' \<rparr>"

definition comp_B :: component where
  "comp_B = \<lparr> c_id = guid_B, c_type = 2, c_data = ''B'' \<rparr>"

definition comp_B_grand :: component where
  "comp_B_grand = \<lparr> c_id = guid_B, c_type = 2, c_data = ''Bg'' \<rparr>"

definition comp_B_parent :: component where
  "comp_B_parent = \<lparr> c_id = guid_B, c_type = 2, c_data = ''Bp'' \<rparr>"

definition grand_doc :: unit_doc where
  "grand_doc = \<lparr> prefab = None, modified_components = Some [(CHR ''#'' # guid_B, comp_B_grand)],
                 components = [comp_A, comp_B] \<rparr>"

definition parent_doc :: unit_doc where
  "parent_doc = \<lparr> prefab = Some ''grand'',
                  modified_components = Some [(CHR ''#'' # guid_B, comp_B_parent)],
                  components = [] \<rparr>"

definition child_unit :: unit_doc where
  "child_unit = \<lparr> prefab = Some ''parent'', modified_components = None, components = [] \<rparr>"

definition family_files :: unit_files where
  "family_files path =
    (if path = ''parent'' then Some parent_doc
     else if path = ''grand'' then Some grand_doc
     else None)"

text \<open>
  A chain of five levels with the same two overrides: the unit \<open>over_leaf\<close> names \<open>o1\<close>,
  which names \<open>o2\<close>, and so on to \<open>o4\<close>, which has no \<open>prefab\<close> field and holds the
  components A and B. The levels \<open>o1\<close> and \<open>o2\<close> both override B. Taken from \<open>o1\<close>, the
  chain has four levels.
\<close>

definition over_4 :: unit_doc where
  "over_4 = \<lparr> prefab = None, modified_components = None, components = [comp_A, comp_B] \<rparr>"

definition over_3 :: unit_doc where
  "over_3 = \<lparr> prefab = Some ''o4'', modified_components = None, components = [] \<rparr>"

definition over_2 :: unit_doc where
  "over_2 = \<lparr> prefab = Some ''o3'',
              modified_components = Some [(CHR ''#'' # guid_B, comp_B_grand)],
              components = [] \<rparr>"

definition over_1 :: unit_doc where
  "over_1 = \<lparr> prefab = Some ''o2'',
              modified_components = Some [(CHR ''#'' # guid_B, comp_B_parent)],
              components = [] \<rparr>"

definition over_leaf :: unit_doc where
  "over_leaf = \<lparr> prefab = Some ''o1'', modified_components = None, components = [] \<rparr>"

definition over_files :: unit_files where
  "over_files path =
    (if path = ''o1'' then Some over_1
     else if path = ''o2'' then Some over_2
     else if path = ''o3'' then Some over_3
     else if path = ''o4'' then Some over_4
     else None)"

text \<open>
  A unit with a component of type 1, encoded in one byte, and a component of type 2,
  encoded in two bytes; and the compiler after this unit has been compiled.
\<close>

definition unit_AB :: unit_doc where
  "unit_AB =
    \<lparr> prefab = None, modified_components = None,
      components = [\<lparr> c_id = ''a'', c_type = 1, c_data = ''A'' \<rparr>,
                    \<lparr> c_id = ''b'', c_type = 2, c_data = ''BC'' \<rparr>] \<rparr>"

definition compiled_AB :: "nat UnitCompiler" where
  "compiled_AB =
    \<lparr> num_units = 1,
      component_data =
        [(1, \<lparr> ctd_compiler = raw_encoder, ctd_num = 1, ctd_unit_index = [0], ctd_data = [65] \<rparr>),
         (2, \<lparr> ctd_compiler = raw_encoder, ctd_num = 1, ctd_unit_index = [0], ctd_data = [66, 67] \<rparr>)],
      component_info = [\<lparr> cti_type = 1, cti_spawn_order = 0 \<rparr>,
                        \<lparr> cti_type = 2, cti_spawn_order = 1 \<rparr>] \<rparr>"


section \<open>Properties of the UnitManager\<close>


lemma drop24: "(idx::u32) < 16777216 \<Longrightarrow> drop_bit 24 idx = 0"
  apply (simp add: drop_bit_eq_div)
  apply (simp add: word_less_nat_alt unat_eq_zero[symmetric] unat_div)
  done

lemma take24: "(idx::u32) < 16777216 \<Longrightarrow> take_bit 24 idx = idx"
  apply (simp add: take_bit_eq_mod)
  apply (simp add: word_less_nat_alt word_unat_eq_iff unat_mod)
  done

lemma drop_push24: "drop_bit 24 (push_bit 24 (ucast (g::u8) :: u32)) = ucast g"
  apply (rule bit_word_eqI)
  apply (auto simp: bit_simps dest: bit_imp_le_length)
  done

lemma index_make_unit:
  "idx < push_bit UNIT_INDEX_BITS 1 \<Longrightarrow> index (make_unit idx g) = idx"
  unfolding index_def make_unit_def UNIT_INDEX_BITS_def
  by (simp add: take24 take_bit_push_bit)

lemma id_gen_make_unit:
  "idx < push_bit UNIT_INDEX_BITS 1 \<Longrightarrow> id_gen (make_unit idx g) = ucast g"
  unfolding id_gen_def make_unit_def UNIT_INDEX_BITS_def
  by (simp add: drop_push24 drop24)

lemma ucast_u8_u32_inj: "(ucast (a::u8) :: u32) = ucast b \<longleftrightarrow> a = b"
proof
  assume "(ucast a :: u32) = ucast b"
  then have "(ucast (ucast a :: u32) :: u8) = ucast (ucast b :: u32)" by simp
  then show "a = b" by (simp add: ucast_up_ucast_id is_up)
qed simp

lemma index_less: "index uid < push_bit UNIT_INDEX_BITS 1"
  unfolding index_def UNIT_INDEX_BITS_def
  using take_bit_nat_less_exp[of 24 "unat (raw uid)"]
  by (simp add: word_less_nat_alt unsigned_take_bit_eq)

lemma unat_less_index_bits:
  "unat (i::u32) < 2 ^ UNIT_INDEX_BITS \<Longrightarrow> i < 2 ^ UNIT_INDEX_BITS"
  by (simp add: UNIT_INDEX_BITS_def word_less_nat_alt)

lemma manager_inv_init: "manager_inv unit_manager_init"
  by (simp add: manager_inv_def unit_manager_init_def)

lemma unat_of_nat_len:
  "n < 2 ^ UNIT_INDEX_BITS \<Longrightarrow> unat (word_of_nat n :: u32) = n"
  by (simp add: UNIT_INDEX_BITS_def unat_of_nat)

text \<open>What \<open>create\<close> does on each of its two paths.\<close>

lemma create_recycle:
  assumes "length (free_indices m) > MINIMUM_FREE_INDICES"
  shows "create m =
    (case array_get (generation m) (unat (hd (free_indices m))) of
       Inl e \<Rightarrow> Inl e
     | Inr g \<Rightarrow> Inr (make_unit (hd (free_indices m)) g, m\<lparr>free_indices := tl (free_indices m)\<rparr>))"
  using assms by (simp add: create_def Let_def)

lemma create_append:
  assumes "\<not> length (free_indices m) > MINIMUM_FREE_INDICES"
    and "length (generation m) < 2 ^ UNIT_INDEX_BITS"
  shows "create m =
    Inr (make_unit (word_of_nat (length (generation m))) 0,
         m\<lparr>generation := generation m @ [0]\<rparr>)"
proof -
  have u: "unat (word_of_nat (length (generation m)) :: u32) = length (generation m)"
    using assms(2) by (rule unat_of_nat_len)
  have "(word_of_nat (length (generation m)) :: u32) < 2 ^ UNIT_INDEX_BITS"
    using assms(2) u by (simp add: unat_less_index_bits)
  then show ?thesis
    using assms(1) u by (simp add: create_def Let_def array_get_def)
qed

lemma create_append_fail:
  assumes "\<not> length (free_indices m) > MINIMUM_FREE_INDICES"
    and "length (generation m) = 2 ^ UNIT_INDEX_BITS"
  shows "create m = Inl (AssertFailed ''Indices out of bounds'')"
proof -
  have "(word_of_nat (length (generation m)) :: u32) = 2 ^ UNIT_INDEX_BITS"
    using assms(2) by (simp add: UNIT_INDEX_BITS_def)
  then show ?thesis
    using assms(1) by (simp add: create_def Let_def)
qed

lemma create_inv:
  assumes "manager_inv m" and "create m = Inr (uid, m')"
  shows "manager_inv m'"
proof (cases "length (free_indices m) > MINIMUM_FREE_INDICES")
  case True
  then have "free_indices m \<noteq> []" by auto
  then have "list_all (\<lambda>i. unat i < length (generation m)) (tl (free_indices m))"
    using assms(1) by (cases "free_indices m") (auto simp: manager_inv_def)
  then show ?thesis
    using assms True
    by (auto simp: create_recycle manager_inv_def split: sum.splits)
next
  case False
  have le: "length (generation m) \<le> 2 ^ UNIT_INDEX_BITS"
    using assms(1) by (simp add: manager_inv_def)
  show ?thesis
  proof (cases "length (generation m) < 2 ^ UNIT_INDEX_BITS")
    case True
    have "list_all (\<lambda>i. unat i < Suc (length (generation m))) (free_indices m)"
      using assms(1) by (auto simp: manager_inv_def list_all_iff)
    then show ?thesis
      using assms False True by (auto simp: create_append manager_inv_def)
  next
    case F2: False
    then have "length (generation m) = 2 ^ UNIT_INDEX_BITS" using le by simp
    then show ?thesis using assms(2) False by (simp add: create_append_fail)
  qed
qed

lemma destroy_inv:
  assumes "manager_inv m" and "destroy m uid w = Inr (m', w')"
  shows "manager_inv m'"
  using assms
  by (auto simp: destroy_def Let_def array_get_def manager_inv_def split: if_splits)

lemma run_inv:
  "manager_inv m \<Longrightarrow> run m w ops = Inr (ids, m', w') \<Longrightarrow> manager_inv m'"
proof (induction m w ops arbitrary: ids rule: run.induct)
  case (1 m w)
  then show ?case by simp
next
  case (2 m w ops)
  then show ?case
    by (auto split: sum.splits prod.splits dest: create_inv)
next
  case (3 m w uid ops)
  then show ?case
    by (auto split: sum.splits prod.splits dest: destroy_inv)
qed



lemma create_alive:
  assumes "manager_inv m" and "create m = Inr (uid, m')"
  shows "alive m' uid = Inr True"
proof (cases "length (free_indices m) > MINIMUM_FREE_INDICES")
  case True
  then have ne: "free_indices m \<noteq> []" by auto
  then have "hd (free_indices m) \<in> set (free_indices m)" by simp
  then have r: "unat (hd (free_indices m)) < length (generation m)"
    using assms(1) by (simp add: manager_inv_def list_all_iff)
  moreover have "length (generation m) \<le> 2 ^ UNIT_INDEX_BITS"
    using assms(1) by (simp add: manager_inv_def)
  ultimately have "hd (free_indices m) < 2 ^ UNIT_INDEX_BITS"
    by (intro unat_less_index_bits) simp
  then have "hd (free_indices m) < push_bit UNIT_INDEX_BITS 1" by simp
  then show ?thesis
    using assms(2) True r
    by (auto simp: create_recycle alive_def array_get_def index_make_unit id_gen_make_unit)
next
  case False
  have le: "length (generation m) \<le> 2 ^ UNIT_INDEX_BITS"
    using assms(1) by (simp add: manager_inv_def)
  show ?thesis
  proof (cases "length (generation m) < 2 ^ UNIT_INDEX_BITS")
    case True
    have u: "unat (word_of_nat (length (generation m)) :: u32) = length (generation m)"
      using True by (rule unat_of_nat_len)
    then have "(word_of_nat (length (generation m)) :: u32) < 2 ^ UNIT_INDEX_BITS"
      using True by (simp add: unat_less_index_bits)
    then have "(word_of_nat (length (generation m)) :: u32) < push_bit UNIT_INDEX_BITS 1"
      by simp
    then show ?thesis
      using assms(2) False True u
      by (auto simp: create_append alive_def array_get_def index_make_unit id_gen_make_unit)
  next
    case F2: False
    then have "length (generation m) = 2 ^ UNIT_INDEX_BITS" using le by simp
    then show ?thesis using assms(2) False by (simp add: create_append_fail)
  qed
qed

lemma destroy_not_alive:
  assumes "alive m uid = Inr True" and "destroy m uid w = Inr (m', w')"
  shows "alive m' uid = Inr False"
proof -
  let ?i = "unat (index uid)"
  let ?g = "generation m ! ?i"
  from assms(1) have r: "?i < length (generation m)" and a: "(ucast ?g :: u32) = id_gen uid"
    by (auto simp: alive_def array_get_def split: if_splits)
  from assms(2) r have g': "generation m' = (generation m)[?i := ?g + 1]"
    by (auto simp: destroy_def Let_def array_get_def)
  have "(ucast (?g + 1) :: u32) \<noteq> ucast ?g"
    by (simp add: ucast_u8_u32_inj)
  then show ?thesis
    using r a g' by (simp add: alive_def array_get_def)
qed

text \<open>A call changes the slot of the table that a destroy names, and no other.\<close>

lemma create_generation:
  assumes "create m = Inr (uid, m')" and "i < length (generation m)"
  shows "generation m' ! i = generation m ! i \<and> length (generation m) \<le> length (generation m')"
  using assms
  by (auto simp: create_def Let_def nth_append split: if_splits sum.splits)

lemma destroy_generation:
  assumes "destroy m uid w = Inr (m', w')" and "i < length (generation m)"
  shows "generation m' ! i = generation m ! i + (if unat (index uid) = i then 1 else 0)
         \<and> length (generation m') = length (generation m)"
  using assms
  by (auto simp: destroy_def Let_def array_get_def split: if_splits)

lemma run_generation:
  "run m w ops = Inr (ids, m', w') \<Longrightarrow> unat i < length (generation m) \<Longrightarrow>
   generation m' ! unat i = generation m ! unat i + word_of_nat (destroys_at i ops)
   \<and> length (generation m) \<le> length (generation m')"
proof (induction m w ops arbitrary: ids rule: run.induct)
  case (1 m w)
  then show ?case by simp
next
  case (2 m w ops)
  from "2.prems"(1) obtain uid m1 ids1 where
    c: "create m = Inr (uid, m1)" and r: "run m1 w ops = Inr (ids1, m', w')"
    by (auto split: sum.splits prod.splits)
  from create_generation[OF c "2.prems"(2)]
  have g: "generation m1 ! unat i = generation m ! unat i"
    and l: "length (generation m) \<le> length (generation m1)" by simp_all
  from l "2.prems"(2) have "unat i < length (generation m1)" by simp
  from "2.IH"[OF c refl r this] g l show ?case by simp
next
  case (3 m w uid ops)
  from "3.prems"(1) obtain m1 w1 where
    d: "destroy m uid w = Inr (m1, w1)" and r: "run m1 w1 ops = Inr (ids, m', w')"
    by (auto split: sum.splits prod.splits)
  from destroy_generation[OF d "3.prems"(2)]
  have g: "generation m1 ! unat i = generation m ! unat i + (if unat (index uid) = unat i then 1 else 0)"
    and l: "length (generation m1) = length (generation m)" by simp_all
  from l "3.prems"(2) have "unat i < length (generation m1)" by simp
  moreover have "(unat (index uid) = unat i) \<longleftrightarrow> index uid = i"
    by (simp add: word_unat_eq_iff)
  ultimately show ?case
    using "3.IH"[OF d refl r] g l by (simp add: add.assoc)
qed



lemma run_alive_unchanged:
  assumes "run m w ops = Inr (ids, m', w')" and "destroys_at (index uid) ops = 0"
    and "alive m uid = Inr b"
  shows "alive m' uid = Inr b"
proof -
  from assms(3) have r: "unat (index uid) < length (generation m)"
    by (auto simp: alive_def array_get_def split: if_splits)
  from run_generation[OF assms(1) r] assms(2)
  have "generation m' ! unat (index uid) = generation m ! unat (index uid)"
    and "unat (index uid) < length (generation m')" using r by simp_all
  then show ?thesis using assms(3) r by (auto simp: alive_def array_get_def)
qed

lemma destroy_total:
  assumes "unat (index uid) < length (generation m)"
  shows "\<exists>m' w'. destroy m uid w = Inr (m', w')"
  using assms by (simp add: destroy_def Let_def array_get_def)

lemma create_init:
  "create (unit_manager_init :: unit UnitManager) =
     Inr (make_unit 0 0, \<lparr>generation = [0], free_indices = [], destroy_callbacks = []\<rparr>)"
  by (simp add: create_def unit_manager_init_def MINIMUM_FREE_INDICES_def array_get_def
      UNIT_INDEX_BITS_def)

lemma create_reuse:
  assumes "manager_inv m" and "create m = Inr (uid', m')"
    and "unat (index uid') < length (generation m)"
  shows "id_gen uid' = ucast (generation m ! unat (index uid'))"
proof (cases "length (free_indices m) > MINIMUM_FREE_INDICES")
  case True
  then have ne: "free_indices m \<noteq> []" by auto
  then have "hd (free_indices m) \<in> set (free_indices m)" by simp
  then have r: "unat (hd (free_indices m)) < length (generation m)"
    using assms(1) by (simp add: manager_inv_def list_all_iff)
  moreover have "length (generation m) \<le> 2 ^ UNIT_INDEX_BITS"
    using assms(1) by (simp add: manager_inv_def)
  ultimately have "hd (free_indices m) < 2 ^ UNIT_INDEX_BITS"
    by (intro unat_less_index_bits) simp
  then have "hd (free_indices m) < push_bit UNIT_INDEX_BITS 1" by simp
  then show ?thesis
    using assms(2) True r
    by (auto simp: create_recycle array_get_def index_make_unit id_gen_make_unit)
next
  case False
  have le: "length (generation m) \<le> 2 ^ UNIT_INDEX_BITS"
    using assms(1) by (simp add: manager_inv_def)
  show ?thesis
  proof (cases "length (generation m) < 2 ^ UNIT_INDEX_BITS")
    case True
    have u: "unat (word_of_nat (length (generation m)) :: u32) = length (generation m)"
      using True by (rule unat_of_nat_len)
    then have "(word_of_nat (length (generation m)) :: u32) < 2 ^ UNIT_INDEX_BITS"
      using True by (simp add: unat_less_index_bits)
    then have "(word_of_nat (length (generation m)) :: u32) < push_bit UNIT_INDEX_BITS 1"
      by simp
    then have "unat (index uid') = length (generation m)"
      using assms(2) False True u by (auto simp: create_append index_make_unit)
    then show ?thesis using assms(3) by simp
  next
    case F2: False
    then have "length (generation m) = 2 ^ UNIT_INDEX_BITS" using le by simp
    then show ?thesis using assms(2) False by (simp add: create_append_fail)
  qed
qed

lemma u8_of_nat_zero_iff: "(word_of_nat n :: u8) = 0 \<longleftrightarrow> 2 ^ 8 dvd n"
  using word_of_nat_eq_0_iff[where 'a=8, of n] by simp



lemma trigger_loop_fold:
  "trigger_loop cbs uid i w = fold (\<lambda>dd. dd_destroy dd uid (user_data dd)) (drop i cbs) w"
proof (induction cbs uid i w rule: trigger_loop.induct)
  case (1 cbs uid i w)
  show ?case
  proof (cases "i < length cbs")
    case True
    then have "drop i cbs = cbs ! i # drop (Suc i) cbs"
      by (simp add: Cons_nth_drop_Suc)
    then show ?thesis
      using True "1.IH"[OF True] by (subst trigger_loop.simps) simp
  next
    case False
    then show ?thesis by (subst trigger_loop.simps) simp
  qed
qed

lemma register_all_callbacks:
  "destroy_callbacks (register_all m regs) =
     destroy_callbacks m @ map (\<lambda>(fn, ud). \<lparr>dd_destroy = fn, user_data = ud\<rparr>) regs"
  by (induction m regs rule: register_all.induct) (simp_all add: register_destroy_function_def)

lemma register_all_generation:
  "generation (register_all m regs) = generation m"
  by (induction m regs rule: register_all.induct) (simp_all add: register_destroy_function_def)


subsection \<open>A client that keeps to the protocol\<close>


lemma run_append:
  "run m w (ops1 @ ops2) =
    (case run m w ops1 of
       Inl e \<Rightarrow> Inl e
     | Inr (ids1, m1, w1) \<Rightarrow>
         (case run m1 w1 ops2 of
            Inl e \<Rightarrow> Inl e
          | Inr (ids2, r) \<Rightarrow> Inr (ids1 @ ids2, r)))"
  by (induction m w ops1 rule: run.induct) (auto split: sum.splits prod.splits)

lemma run_append_Inr:
  "run m w ops1 = Inr (ids1, m1, w1) \<Longrightarrow> run m1 w1 ops2 = Inr (ids2, m2, w2) \<Longrightarrow>
   run m w (ops1 @ ops2) = Inr (ids1 @ ids2, m2, w2)"
  by (simp add: run_append)

lemma destroy_no_callbacks:
  assumes "destroy_callbacks m = []" and "unat (index uid) < length (generation m)"
  shows "destroy m uid w =
    Inr (m\<lparr>generation := (generation m)[unat (index uid) := generation m ! unat (index uid) + 1],
           free_indices := free_indices m @ [index uid]\<rparr>, w)"
  using assms
  by (simp add: destroy_def Let_def array_get_def trigger_destroy_callbacks_def trigger_loop.simps)

lemma slot_word:
  assumes "i < NUM_SLOTS"
  shows "unat (word_of_nat i :: u32) = i" and "(word_of_nat i :: u32) < push_bit UNIT_INDEX_BITS 1"
    and "index (make_unit (word_of_nat i) g) = word_of_nat i"
proof -
  have lt: "i < 2 ^ UNIT_INDEX_BITS" using assms by (simp add: NUM_SLOTS_def UNIT_INDEX_BITS_def)
  show u: "unat (word_of_nat i :: u32) = i" using lt by (rule unat_of_nat_len)
  have "(word_of_nat i :: u32) < 2 ^ UNIT_INDEX_BITS"
    using u lt by (simp add: unat_less_index_bits)
  then show w: "(word_of_nat i :: u32) < push_bit UNIT_INDEX_BITS 1" by simp
  show "index (make_unit (word_of_nat i) g) = word_of_nat i"
    using w by (rule index_make_unit)
qed

text \<open>Creating \<open>n\<close> units while the queue is empty.\<close>

lemma run_creates:
  "j + n \<le> NUM_SLOTS \<Longrightarrow>
   run \<lparr>generation = replicate j 0, free_indices = [], destroy_callbacks = []\<rparr> ()
       (replicate n Create) =
   Inr (map (\<lambda>i. make_unit (word_of_nat i) 0) [j..<j + n],
        \<lparr>generation = replicate (j + n) 0, free_indices = [], destroy_callbacks = []\<rparr>, ())"
proof (induction n arbitrary: j)
  case 0
  then show ?case by simp
next
  case (Suc n)
  let ?m = "\<lparr>generation = replicate j (0::u8), free_indices = [],
             destroy_callbacks = ([] :: unit DestroyData list)\<rparr>"
  have nq: "\<not> length (free_indices ?m) > MINIMUM_FREE_INDICES" by simp
  have lt: "length (generation ?m) < 2 ^ UNIT_INDEX_BITS"
    using Suc.prems by (simp add: NUM_SLOTS_def UNIT_INDEX_BITS_def)
  have c: "create ?m = Inr (make_unit (word_of_nat j) 0,
      \<lparr>generation = replicate (Suc j) 0, free_indices = [], destroy_callbacks = []\<rparr>)"
    using create_append[OF nq lt] by (simp add: replicate_append_same)
  have "Suc j + n \<le> NUM_SLOTS" using Suc.prems by simp
  from Suc.IH[OF this]
  have ih: "run \<lparr>generation = replicate (Suc j) 0, free_indices = [], destroy_callbacks = []\<rparr> ()
       (replicate n Create) =
     Inr (map (\<lambda>i. make_unit (word_of_nat i) 0) [Suc j..<Suc j + n],
        \<lparr>generation = replicate (Suc j + n) 0, free_indices = [], destroy_callbacks = []\<rparr>, ())" .
  have e: "[j..<Suc (j + n)] = j # [Suc j..<Suc (j + n)]"
    by (rule upt_conv_Cons) simp
  have "run ?m () (Create # replicate n Create) =
     Inr (make_unit (word_of_nat j) 0 # map (\<lambda>i. make_unit (word_of_nat i) 0) [Suc j..<Suc j + n],
        \<lparr>generation = replicate (Suc j + n) 0, free_indices = [], destroy_callbacks = []\<rparr>, ())"
    by (simp only: run.simps c ih sum.case prod.case)
  then show ?case
    by (simp add: e del: upt_Suc)
qed



lemma replicate_two_nth:
  "j < n \<Longrightarrow> (replicate j a @ replicate (n - j) b) ! j = b"
  by (simp add: nth_append)

lemma replicate_two_update:
  assumes "j < n"
  shows "(replicate j a @ replicate (n - j) b)[j := a] = replicate (Suc j) a @ replicate (n - Suc j) b"
proof -
  from assms have "n - j = Suc (n - Suc j)" by simp
  then have "replicate (n - j) b = b # replicate (n - Suc j) b" by simp
  then show ?thesis by (simp add: list_update_append replicate_append_same)
qed

text \<open>Destroying the generation-\<open>g\<close> ids of the slots \<open>j\<close> to \<open>n - 1\<close>, in order.\<close>

lemma run_destroys:
  "n - j = d \<Longrightarrow> j \<le> n \<Longrightarrow> n \<le> NUM_SLOTS \<Longrightarrow>
   run \<lparr>generation = replicate j (g + 1) @ replicate (n - j) g,
        free_indices = q @ map word_of_nat [0..<j], destroy_callbacks = []\<rparr> ()
       (map (\<lambda>i. Destroy (make_unit (word_of_nat i) g)) [j..<n]) =
   Inr ([], \<lparr>generation = replicate n (g + 1),
             free_indices = q @ map word_of_nat [0..<n], destroy_callbacks = []\<rparr>, ())"
proof (induction d arbitrary: j)
  case 0
  then show ?case by simp
next
  case (Suc d)
  then have jn: "j < n" and js: "j < NUM_SLOTS" by simp_all
  let ?m = "\<lparr>generation = replicate j (g + 1) @ replicate (n - j) g,
        free_indices = q @ map word_of_nat [0..<j],
        destroy_callbacks = ([] :: unit DestroyData list)\<rparr>"
  let ?uid = "make_unit (word_of_nat j) g"
  have d: "destroy ?m ?uid () =
      Inr (\<lparr>generation = replicate (Suc j) (g + 1) @ replicate (n - Suc j) g,
            free_indices = q @ map word_of_nat [0..<Suc j], destroy_callbacks = []\<rparr>, ())"
    using jn slot_word(3)[OF js, of g] slot_word(1)[OF js]
    by (subst destroy_no_callbacks)
       (simp_all add: replicate_two_nth replicate_two_update del: replicate_Suc)
  have e: "[j..<n] = j # [Suc j..<n]"
    using jn by (rule upt_conv_Cons)
  have "n - Suc j = d" "Suc j \<le> n" using Suc.prems by simp_all
  from Suc.IH[OF this Suc.prems(3)] d show ?case
    by (simp add: e del: upt_Suc replicate_Suc)
qed



lemma create_recycle_Cons:
  assumes "length q \<ge> MINIMUM_FREE_INDICES" and "unat i < length gens"
  shows "create \<lparr>generation = gens, free_indices = i # q, destroy_callbacks = cbs\<rparr> =
    Inr (make_unit i (gens ! unat i),
         \<lparr>generation = gens, free_indices = q, destroy_callbacks = cbs\<rparr>)"
  using assms by (simp add: create_def array_get_def)

text \<open>One round: each slot from \<open>j\<close> on is recycled and the id just created is destroyed.\<close>

lemma run_round_from:
  "NUM_SLOTS - j = d \<Longrightarrow> j \<le> NUM_SLOTS \<Longrightarrow>
   run \<lparr>generation = replicate j (g + 1) @ replicate (NUM_SLOTS - j) g,
        free_indices = map word_of_nat [j..<NUM_SLOTS] @ map word_of_nat [0..<j],
        destroy_callbacks = []\<rparr> ()
       (concat (map (\<lambda>i. [Create, Destroy (make_unit (word_of_nat i) g)]) [j..<NUM_SLOTS])) =
   Inr (map (\<lambda>i. make_unit (word_of_nat i) g) [j..<NUM_SLOTS], all_free NUM_SLOTS (g + 1), ())"
proof (induction d arbitrary: j)
  case 0
  then show ?case by (simp add: all_free_def)
next
  case (Suc d)
  then have js: "j < NUM_SLOTS" by simp
  let ?gens = "replicate j (g + 1) @ replicate (NUM_SLOTS - j) g"
  let ?m = "\<lparr>generation = ?gens,
        free_indices = map word_of_nat [j..<NUM_SLOTS] @ map word_of_nat [0..<j],
        destroy_callbacks = ([] :: unit DestroyData list)\<rparr>"
  let ?m1 = "\<lparr>generation = ?gens,
        free_indices = map word_of_nat [Suc j..<NUM_SLOTS] @ map word_of_nat [0..<j],
        destroy_callbacks = ([] :: unit DestroyData list)\<rparr>"
  let ?m2 = "\<lparr>generation = replicate (Suc j) (g + 1) @ replicate (NUM_SLOTS - Suc j) g,
        free_indices = map word_of_nat [Suc j..<NUM_SLOTS] @ map word_of_nat [0..<Suc j],
        destroy_callbacks = ([] :: unit DestroyData list)\<rparr>"
  let ?uid = "make_unit (word_of_nat j) g"
  have e: "[j..<NUM_SLOTS] = j # [Suc j..<NUM_SLOTS]"
    using js by (rule upt_conv_Cons)
  have big: "length (free_indices ?m) > MINIMUM_FREE_INDICES"
    using js by (simp add: NUM_SLOTS_def MINIMUM_FREE_INDICES_def)
  have lq: "length (map word_of_nat [Suc j..<NUM_SLOTS] @ map word_of_nat [0..<j] :: u32 list)
      \<ge> MINIMUM_FREE_INDICES"
    using js by (simp add: NUM_SLOTS_def MINIMUM_FREE_INDICES_def)
  have rng: "unat (word_of_nat j :: u32) < length ?gens"
    using js slot_word(1)[OF js] by simp
  have c: "create ?m = Inr (?uid, ?m1)"
    using create_recycle_Cons[OF lq rng, of "[]"] js slot_word(1)[OF js]
    by (simp add: e replicate_two_nth del: upt_Suc replicate_Suc)
  have d: "destroy ?m1 ?uid () = Inr (?m2, ())"
    using js slot_word(3)[OF js, of g] slot_word(1)[OF js]
    by (subst destroy_no_callbacks)
       (simp_all add: replicate_two_nth replicate_two_update del: replicate_Suc)
  have "NUM_SLOTS - Suc j = d" "Suc j \<le> NUM_SLOTS" using Suc.prems by simp_all
  from Suc.IH[OF this] c d show ?case
    by (simp add: e del: upt_Suc replicate_Suc)
qed

lemma run_round:
  "run (all_free NUM_SLOTS (word_of_nat k)) () (round_ops k) =
   Inr (map (\<lambda>i. make_unit (word_of_nat i) (word_of_nat k)) [0..<NUM_SLOTS],
        all_free NUM_SLOTS (word_of_nat (Suc k)), ())"
  using run_round_from[of 0 NUM_SLOTS "word_of_nat k"]
  by (simp add: round_ops_def all_free_def)

lemma run_fill:
  "run unit_manager_init () fill_ops =
   Inr (map (\<lambda>i. make_unit (word_of_nat i) 0) [0..<NUM_SLOTS], all_free NUM_SLOTS 1, ())"
proof -
  have c: "run unit_manager_init () (replicate NUM_SLOTS Create) =
     Inr (map (\<lambda>i. make_unit (word_of_nat i) 0) [0..<NUM_SLOTS],
          \<lparr>generation = replicate NUM_SLOTS 0, free_indices = [], destroy_callbacks = []\<rparr>, ())"
    using run_creates[of 0 NUM_SLOTS] by (simp add: unit_manager_init_def)
  have d: "run \<lparr>generation = replicate NUM_SLOTS 0, free_indices = [],
               destroy_callbacks = []\<rparr> ()
       (map (\<lambda>i. Destroy (make_unit (word_of_nat i) 0)) [0..<NUM_SLOTS]) =
     Inr ([], all_free NUM_SLOTS 1, ())"
    using run_destroys[of NUM_SLOTS 0 NUM_SLOTS 0 "[]"] by (simp add: all_free_def)
  from run_append_Inr[OF c d] show ?thesis by (simp add: fill_ops_def)
qed

text \<open>The rounds \<open>k\<close> to \<open>k + n - 1\<close>, one after the other.\<close>

lemma run_rounds:
  "run (all_free NUM_SLOTS (word_of_nat k)) () (concat (map round_ops [k..<k + n])) =
   Inr (concat (map (\<lambda>k. map (\<lambda>i. make_unit (word_of_nat i) (word_of_nat k)) [0..<NUM_SLOTS])
                    [k..<k + n]),
        all_free NUM_SLOTS (word_of_nat (k + n)), ())"
proof (induction n arbitrary: k)
  case 0
  then show ?case by simp
next
  case (Suc n)
  have e: "[k..<Suc (k + n)] = k # [Suc k..<Suc (k + n)]"
    by (rule upt_conv_Cons) simp
  from run_append_Inr[OF run_round[of k] Suc.IH[of "Suc k"]] show ?case
    by (simp only: e list.map concat.simps add_Suc add_Suc_right)
qed

lemma run_wrap_ops:
  "run unit_manager_init () wrap_ops = Inr (wrap_ids, all_free NUM_SLOTS 0, ())"
proof -
  have "[0..<256] = 0 # [Suc 0..<256]"
    by (rule upt_conv_Cons) simp
  then have e: "[0..<256] = 0 # [1..<256]"
    by (simp only: One_nat_def)
  have n: "(1::nat) + 255 = 256" by simp
  have z: "(word_of_nat 256 :: u8) = 0" by simp
  have r: "run (all_free NUM_SLOTS 1) () (concat (map round_ops [1..<256])) =
     Inr (concat (map (\<lambda>k. map (\<lambda>i. make_unit (word_of_nat i) (word_of_nat k)) [0..<NUM_SLOTS])
                      [1..<256]),
          all_free NUM_SLOTS 0, ())"
    using run_rounds[of 1 255] by (simp only: n z of_nat_1)
  from run_append_Inr[OF run_fill r] show ?thesis
    unfolding wrap_ops_def wrap_ids_def
    by (simp only: e list.map concat.simps semiring_1_class.of_nat_0)
qed



lemma destroys_at_zero:
  "(\<forall>d. Destroy d \<in> set ops \<longrightarrow> index d \<noteq> i) \<Longrightarrow> destroys_at i ops = 0"
  by (induction i ops rule: destroys_at.induct) auto

lemma slot_zero: "index (make_unit 0 g) = 0" "unat (index (make_unit 0 g)) = 0"
proof -
  have "0 < NUM_SLOTS" by (simp add: NUM_SLOTS_def)
  from slot_word(3)[OF this, of g] show "index (make_unit 0 g) = 0" by simp
  then show "unat (index (make_unit 0 g)) = 0" by simp
qed

lemma fill_after_first:
  "run \<lparr>generation = 1 # replicate (NUM_SLOTS - 1) 0,
        free_indices = [0], destroy_callbacks = []\<rparr> ()
       (map (\<lambda>i. Destroy (make_unit (word_of_nat i) 0)) [1..<NUM_SLOTS]) =
   Inr ([], all_free NUM_SLOTS 1, ())"
proof -
  have "run \<lparr>generation = replicate 1 (0 + 1) @ replicate (NUM_SLOTS - 1) 0,
        free_indices = [] @ map word_of_nat [0..<1], destroy_callbacks = []\<rparr> ()
       (map (\<lambda>i. Destroy (make_unit (word_of_nat i) 0)) [1..<NUM_SLOTS]) =
     Inr ([], \<lparr>generation = replicate NUM_SLOTS (0 + 1),
             free_indices = [] @ map word_of_nat [0..<NUM_SLOTS], destroy_callbacks = []\<rparr>, ())"
    by (rule run_destroys[of NUM_SLOTS 1 "NUM_SLOTS - 1" 0 "[]"]) (simp_all add: NUM_SLOTS_def)
  moreover have "\<lparr>generation = replicate 1 (0 + 1) @ replicate (NUM_SLOTS - 1) 0,
        free_indices = [] @ map word_of_nat [0..<1],
        destroy_callbacks = ([] :: unit DestroyData list)\<rparr> =
      \<lparr>generation = 1 # replicate (NUM_SLOTS - 1) 0, free_indices = [0], destroy_callbacks = []\<rparr>"
    by simp
  moreover have "\<lparr>generation = replicate NUM_SLOTS (0 + 1),
             free_indices = [] @ map word_of_nat [0..<NUM_SLOTS], destroy_callbacks = []\<rparr> =
      all_free NUM_SLOTS 1"
    by (simp add: all_free_def)
  ultimately show ?thesis by (simp only:)
qed

lemma create_all_free:
  "create (all_free NUM_SLOTS g) =
   Inr (make_unit 0 g,
        \<lparr>generation = replicate NUM_SLOTS g, free_indices = map word_of_nat [1..<NUM_SLOTS],
         destroy_callbacks = []\<rparr>)"
proof -
  have "[0..<NUM_SLOTS] = 0 # [Suc 0..<NUM_SLOTS]"
    by (rule upt_conv_Cons) (simp add: NUM_SLOTS_def)
  then have e: "[0..<NUM_SLOTS] = 0 # [1..<NUM_SLOTS]"
    by (simp only: One_nat_def)
  have st: "all_free NUM_SLOTS g =
      \<lparr>generation = replicate NUM_SLOTS g, free_indices = 0 # map word_of_nat [1..<NUM_SLOTS],
       destroy_callbacks = []\<rparr>"
    by (simp only: all_free_def e list.map semiring_1_class.of_nat_0)
  have l: "length (map word_of_nat [1..<NUM_SLOTS] :: u32 list) \<ge> MINIMUM_FREE_INDICES"
    by (simp add: NUM_SLOTS_def MINIMUM_FREE_INDICES_def)
  have r: "unat (0::u32) < length (replicate NUM_SLOTS g)"
    by (simp add: NUM_SLOTS_def)
  have n: "replicate NUM_SLOTS g ! unat (0::u32) = g"
    by (simp add: NUM_SLOTS_def)
  from create_recycle_Cons[OF l r, of "[]"] show ?thesis
    by (simp only: st n)
qed

lemma alive_all_free:
  "alive (all_free NUM_SLOTS g) (make_unit 0 h) = Inr (g = h)"
  by (simp add: alive_def all_free_def array_get_def slot_zero NUM_SLOTS_def
      id_gen_make_unit UNIT_INDEX_BITS_def ucast_u8_u32_inj)



lemma length_concat_blocks:
  "length (concat (map (\<lambda>k. map (f k) [0..<n]) [0..<K])) = K * n"
  by (induction K) simp_all

lemma concat_blocks_nth:
  "i < n \<Longrightarrow> k < K \<Longrightarrow> concat (map (\<lambda>k. map (f k) [0..<n]) [0..<K]) ! (k * n + i) = f k i"
proof (induction K)
  case 0
  then show ?case by simp
next
  case (Suc K)
  show ?case
  proof (cases "k < K")
    case True
    then have "Suc k \<le> K" by simp
    then have "Suc k * n \<le> K * n" by (rule mult_le_mono1)
    then have "k * n + i < K * n" using Suc.prems(1) by simp
    then show ?thesis
      using Suc.IH[OF Suc.prems(1) True] by (simp add: nth_append length_concat_blocks)
  next
    case False
    then have "k = K" using Suc.prems(2) by simp
    then show ?thesis
      using Suc.prems(1) by (simp add: nth_append length_concat_blocks)
  qed
qed

lemma wrap_ids_nth:
  "i < NUM_SLOTS \<Longrightarrow> k < 256 \<Longrightarrow>
   wrap_ids ! (k * NUM_SLOTS + i) = make_unit (word_of_nat i) (word_of_nat k)"
  unfolding wrap_ids_def by (rule concat_blocks_nth)

lemma wrap_ops_first_destroy: "wrap_ops ! NUM_SLOTS = Destroy (make_unit 0 0)"
proof -
  have "0 < NUM_SLOTS" by (simp add: NUM_SLOTS_def)
  then have "fill_ops ! NUM_SLOTS = Destroy (make_unit 0 0)"
    by (simp add: fill_ops_def nth_append)
  moreover have "NUM_SLOTS < length fill_ops"
    by (simp add: fill_ops_def NUM_SLOTS_def)
  ultimately show ?thesis
    by (simp add: wrap_ops_def nth_append)
qed


subsection \<open>The claims about the UnitManager\<close>

text \<open>
  C3. After any sequence of calls, the id that \<open>create\<close> returns is alive right after the
  call. It stays alive through any further calls that do not destroy its slot; and whenever
  it is alive, \<open>destroy\<close> of the id succeeds and the id is not alive right after it.
\<close>

theorem create_alive_destroy_dead:
  assumes "run unit_manager_init w0 ops1 = Inr (ids1, m1, w1)"
    and "create m1 = Inr (uid, m2)"
  shows "alive m2 uid = Inr True \<and>
    (\<forall>ops2 ids2 m3 w3.
       run m2 w1 ops2 = Inr (ids2, m3, w3) \<longrightarrow>
       (destroys_at (index uid) ops2 = 0 \<longrightarrow> alive m3 uid = Inr True) \<and>
       (alive m3 uid = Inr True \<longrightarrow>
          (\<exists>m4 w4. destroy m3 uid w3 = Inr (m4, w4) \<and> alive m4 uid = Inr False)))"
proof -
  have inv1: "manager_inv m1"
    using run_inv[OF manager_inv_init assms(1)] .
  have a2: "alive m2 uid = Inr True"
    using create_alive[OF inv1 assms(2)] .
  have stays: "alive m3 uid = Inr True"
    if r: "run m2 w1 ops2 = Inr (ids2, m3, w3)" and z: "destroys_at (index uid) ops2 = 0"
    for ops2 ids2 m3 w3
    using run_alive_unchanged[OF r z a2] .
  have dies: "\<exists>m4 w4. destroy m3 uid w3 = Inr (m4, w4) \<and> alive m4 uid = Inr False"
    if a3: "alive m3 uid = Inr True" for m3 :: "'a UnitManager" and w3
  proof -
    from a3 have "unat (index uid) < length (generation m3)"
      by (auto simp: alive_def array_get_def split: if_splits)
    from destroy_total[OF this] obtain m4 w4 where d: "destroy m3 uid w3 = Inr (m4, w4)"
      by blast
    from destroy_not_alive[OF a3 d] d show ?thesis by blast
  qed
  from a2 stays dies show ?thesis by blast
qed

text \<open>
  At a concrete run: the first unit is created, a second one is created, and the first is
  destroyed.
\<close>

theorem create_alive_destroy_dead_witness:
  "run (unit_manager_init :: unit UnitManager) () [] = Inr ([], unit_manager_init, ()) \<and>
   create (unit_manager_init :: unit UnitManager) =
     Inr (make_unit 0 0, \<lparr>generation = [0], free_indices = [], destroy_callbacks = []\<rparr>) \<and>
   alive \<lparr>generation = [0], free_indices = [], destroy_callbacks = ([] :: unit DestroyData list)\<rparr>
     (make_unit 0 0) = Inr True \<and>
   run \<lparr>generation = [0], free_indices = [], destroy_callbacks = []\<rparr> () [Create] =
     Inr ([make_unit 1 0],
          \<lparr>generation = [0, 0], free_indices = [], destroy_callbacks = []\<rparr>, ()) \<and>
   destroys_at (index (make_unit 0 0)) [Create] = 0 \<and>
   alive \<lparr>generation = [0, 0], free_indices = [],
          destroy_callbacks = ([] :: unit DestroyData list)\<rparr> (make_unit 0 0) = Inr True \<and>
   (\<exists>m4 w4. destroy
       \<lparr>generation = [0, 0], free_indices = [], destroy_callbacks = ([] :: unit DestroyData list)\<rparr>
       (make_unit 0 0) () = Inr (m4, w4) \<and> alive m4 (make_unit 0 0) = Inr False)"
proof -
  let ?m2 = "\<lparr>generation = [0], free_indices = [], destroy_callbacks = ([] :: unit DestroyData list)\<rparr>"
  let ?m3 = "\<lparr>generation = [0, 0], free_indices = [], destroy_callbacks = ([] :: unit DestroyData list)\<rparr>"
  have h1: "run (unit_manager_init :: unit UnitManager) () [] = Inr ([], unit_manager_init, ())"
    by simp
  have h2: "create (unit_manager_init :: unit UnitManager) = Inr (make_unit 0 0, ?m2)"
    by (rule create_init)
  have h3: "run ?m2 () [Create] = Inr ([make_unit 1 0], ?m3, ())"
    by (simp add: create_def MINIMUM_FREE_INDICES_def array_get_def UNIT_INDEX_BITS_def)
  have h4: "destroys_at (index (make_unit 0 0)) [Create] = 0"
    by simp
  note t = create_alive_destroy_dead[OF h1 h2]
  from t have a2: "alive ?m2 (make_unit 0 0) = Inr True" by blast
  from t h3 h4 have a3: "alive ?m3 (make_unit 0 0) = Inr True" by blast
  from t h3 a3 have "\<exists>m4 w4. destroy ?m3 (make_unit 0 0) () = Inr (m4, w4) \<and>
      alive m4 (make_unit 0 0) = Inr False" by blast
  with h1 h2 h3 h4 a2 a3 show ?thesis by blast
qed



text \<open>
  C4. In a state reached by any sequence of calls, with 1024 entries or fewer in the queue,
  \<open>create\<close> leaves the queue as it is and appends a slot with generation 0, whose index
  the id carries; it fails only when the table already has \<open>1 << UNIT_INDEX_BITS\<close> slots.
\<close>

theorem create_below_threshold_appends:
  assumes "run unit_manager_init w ops = Inr (ids, m, w')"
    and "length (free_indices m) \<le> 1024"
  shows "create m =
      (if length (generation m) < 2 ^ UNIT_INDEX_BITS
       then Inr (make_unit (word_of_nat (length (generation m))) 0,
                 m\<lparr>generation := generation m @ [0]\<rparr>)
       else Inl (AssertFailed ''Indices out of bounds'')) \<and>
    (\<forall>uid m'. create m = Inr (uid, m') \<longrightarrow>
       free_indices m' = free_indices m \<and> generation m' = generation m @ [0] \<and>
       unat (index uid) = length (generation m) \<and> id_gen uid = 0)"
proof -
  have inv: "manager_inv m"
    using run_inv[OF manager_inv_init assms(1)] .
  then have le: "length (generation m) \<le> 2 ^ UNIT_INDEX_BITS"
    by (simp add: manager_inv_def)
  have nq: "\<not> length (free_indices m) > MINIMUM_FREE_INDICES"
    using assms(2) by (simp add: MINIMUM_FREE_INDICES_def)
  show ?thesis
  proof (cases "length (generation m) < 2 ^ UNIT_INDEX_BITS")
    case True
    have u: "unat (word_of_nat (length (generation m)) :: u32) = length (generation m)"
      using True by (rule unat_of_nat_len)
    then have "(word_of_nat (length (generation m)) :: u32) < 2 ^ UNIT_INDEX_BITS"
      using True by (simp add: unat_less_index_bits)
    then have lt: "(word_of_nat (length (generation m)) :: u32) < push_bit UNIT_INDEX_BITS 1"
      by simp
    show ?thesis
      using True u index_make_unit[OF lt, of 0] id_gen_make_unit[OF lt, of 0]
      by (simp add: create_append[OF nq True])
  next
    case False
    then have "length (generation m) = 2 ^ UNIT_INDEX_BITS" using le by simp
    then show ?thesis
      by (simp add: create_append_fail[OF nq])
  qed
qed

theorem create_below_threshold_appends_witness:
  "run (unit_manager_init :: unit UnitManager) () [Create, Destroy (make_unit 0 0)] =
     Inr ([make_unit 0 0],
          \<lparr>generation = [1], free_indices = [0], destroy_callbacks = []\<rparr>, ()) \<and>
   length (free_indices
     (\<lparr>generation = [1], free_indices = [0], destroy_callbacks = []\<rparr> :: unit UnitManager)) \<le> 1024 \<and>
   create (\<lparr>generation = [1], free_indices = [0], destroy_callbacks = []\<rparr> :: unit UnitManager) =
     Inr (make_unit 1 0, \<lparr>generation = [1, 0], free_indices = [0], destroy_callbacks = []\<rparr>) \<and>
   unat (index (make_unit 1 0)) = 1 \<and> id_gen (make_unit 1 0) = 0"
proof -
  let ?m = "\<lparr>generation = [1], free_indices = [0], destroy_callbacks = []\<rparr> :: unit UnitManager"
  have lt: "(0::u32) < push_bit UNIT_INDEX_BITS 1" by (simp add: UNIT_INDEX_BITS_def)
  have i0: "index (make_unit 0 0) = 0" using index_make_unit[OF lt, of 0] .
  have d: "destroy (\<lparr>generation = [0], free_indices = [], destroy_callbacks = []\<rparr> :: unit UnitManager)
      (make_unit 0 0) () = Inr (?m, ())"
    by (simp add: destroy_no_callbacks i0)
  have h1: "run (unit_manager_init :: unit UnitManager) () [Create, Destroy (make_unit 0 0)] =
     Inr ([make_unit 0 0], ?m, ())"
    by (simp add: create_init d)
  have h2: "length (free_indices ?m) \<le> 1024" by simp
  note t = create_below_threshold_appends[OF h1 h2]
  from t have c: "create ?m =
     Inr (make_unit 1 0, \<lparr>generation = [1, 0], free_indices = [0], destroy_callbacks = []\<rparr>)"
    by (simp add: UNIT_INDEX_BITS_def)
  with t have "unat (index (make_unit 1 0)) = 1" and "id_gen (make_unit 1 0) = 0"
    by simp_all
  with h1 h2 c show ?thesis by blast
qed

text \<open>
  C10. After any sequence of calls every queued index is a slot of the generation table,
  the table never gets shorter afterwards, and so \<open>create\<close> on its recycling path finds the
  slot it reads and returns an id.
\<close>

theorem free_indices_in_table:
  assumes "run unit_manager_init w ops = Inr (ids, m, w')"
  shows "(\<forall>i \<in> set (free_indices m). unat i < length (generation m)) \<and>
    (\<forall>ops' ids' m' w''. run m w' ops' = Inr (ids', m', w'') \<longrightarrow>
       length (generation m) \<le> length (generation m')) \<and>
    (length (free_indices m) > MINIMUM_FREE_INDICES \<longrightarrow>
       create m = Inr (make_unit (hd (free_indices m))
                         (generation m ! unat (hd (free_indices m))),
                       m\<lparr>free_indices := tl (free_indices m)\<rparr>))"
proof -
  have inv: "manager_inv m"
    using run_inv[OF manager_inv_init assms(1)] .
  then have q: "\<forall>i \<in> set (free_indices m). unat i < length (generation m)"
    by (simp add: manager_inv_def list_all_iff)
  have mono: "length (generation m) \<le> length (generation m')"
    if r: "run m w' ops' = Inr (ids', m', w'')" for ops' ids' m' w''
  proof (cases "generation m")
    case Nil
    then show ?thesis by simp
  next
    case (Cons g gs)
    then have "unat (0::u32) < length (generation m)" by simp
    from run_generation[OF r this] show ?thesis by simp
  qed
  have rec: "create m = Inr (make_unit (hd (free_indices m))
                         (generation m ! unat (hd (free_indices m))),
                       m\<lparr>free_indices := tl (free_indices m)\<rparr>)"
    if big: "length (free_indices m) > MINIMUM_FREE_INDICES"
  proof -
    from big have "free_indices m \<noteq> []" by auto
    then have "hd (free_indices m) \<in> set (free_indices m)" by simp
    with q have "unat (hd (free_indices m)) < length (generation m)" by blast
    then show ?thesis by (simp add: create_recycle[OF big] array_get_def)
  qed
  from q mono rec show ?thesis by blast
qed

theorem free_indices_in_table_witness:
  "run unit_manager_init () fill_ops =
     Inr (map (\<lambda>i. make_unit (word_of_nat i) 0) [0..<NUM_SLOTS], all_free NUM_SLOTS 1, ()) \<and>
   run (all_free NUM_SLOTS 1) () [] = Inr ([], all_free NUM_SLOTS 1, ()) \<and>
   length (free_indices (all_free NUM_SLOTS 1)) > MINIMUM_FREE_INDICES \<and>
   list_all (\<lambda>i. unat i < NUM_SLOTS) (free_indices (all_free NUM_SLOTS 1)) \<and>
   create (all_free NUM_SLOTS 1) =
     Inr (make_unit (hd (free_indices (all_free NUM_SLOTS 1)))
            (generation (all_free NUM_SLOTS 1) ! unat (hd (free_indices (all_free NUM_SLOTS 1)))),
          (all_free NUM_SLOTS 1)\<lparr>free_indices := tl (free_indices (all_free NUM_SLOTS 1))\<rparr>)"
proof -
  have h2: "run (all_free NUM_SLOTS 1) () [] = Inr ([], all_free NUM_SLOTS 1, ())"
    by simp
  have h3: "length (free_indices (all_free NUM_SLOTS 1)) > MINIMUM_FREE_INDICES"
    by (simp add: all_free_def NUM_SLOTS_def MINIMUM_FREE_INDICES_def)
  have l: "length (generation (all_free NUM_SLOTS 1)) = NUM_SLOTS"
    by (simp add: all_free_def)
  from free_indices_in_table[OF run_fill] run_fill h2 h3 l show ?thesis
    by (simp add: list_all_iff)
qed

text \<open>
  C5, as the code has it. After \<open>destroy\<close> of a live id \<open>(idx, g)\<close> and any further calls,
  \<open>k\<close> of them \<open>destroy\<close> calls on slot \<open>idx\<close>: the id is alive exactly when \<open>1 + k\<close> is a
  multiple of 256, and an id that \<open>create\<close> then returns for slot \<open>idx\<close> has generation
  \<open>g + 1 + k\<close> modulo 256.
\<close>

theorem generation_after_destroy:
  assumes "run unit_manager_init w0 ops1 = Inr (ids1, m1, w1)"
    and "alive m1 uid = Inr True"
    and "destroy m1 uid w1 = Inr (m2, w2)"
    and "run m2 w2 ops2 = Inr (ids2, m3, w3)"
  shows "alive m3 uid = Inr (2 ^ 8 dvd Suc (destroys_at (index uid) ops2)) \<and>
    (\<forall>uid' m4. create m3 = Inr (uid', m4) \<and> index uid' = index uid \<longrightarrow>
       id_gen uid' = ucast ((ucast (id_gen uid) :: u8) + 1
                            + word_of_nat (destroys_at (index uid) ops2)))"
proof -
  let ?i = "unat (index uid)"
  let ?g = "generation m1 ! ?i"
  let ?k = "destroys_at (index uid) ops2"
  have inv3: "manager_inv m3"
    using run_inv[OF destroy_inv[OF run_inv[OF manager_inv_init assms(1)] assms(3)] assms(4)] .
  from assms(2) have r1: "?i < length (generation m1)"
    and a: "(ucast ?g :: u32) = id_gen uid"
    by (auto simp: alive_def array_get_def split: if_splits)
  from destroy_generation[OF assms(3) r1]
  have g2: "generation m2 ! ?i = ?g + 1" and r2: "?i < length (generation m2)"
    using r1 by simp_all
  from run_generation[OF assms(4) r2]
  have g3: "generation m3 ! ?i = ?g + 1 + word_of_nat ?k" and r3: "?i < length (generation m3)"
    using g2 r2 by simp_all
  have g: "(ucast (id_gen uid) :: u8) = ?g"
    using a[symmetric] by (simp add: ucast_up_ucast_id is_up)
  have "(ucast (?g + 1 + word_of_nat ?k) :: u32) = ucast ?g \<longleftrightarrow> (word_of_nat (Suc ?k) :: u8) = 0"
    by (simp add: ucast_u8_u32_inj add.assoc)
  then have al: "alive m3 uid = Inr (2 ^ 8 dvd Suc ?k)"
    using r3 g3 a by (simp add: alive_def array_get_def u8_of_nat_zero_iff del: of_nat_Suc)
  have "id_gen uid' = ucast ((ucast (id_gen uid) :: u8) + 1 + word_of_nat ?k)"
    if c: "create m3 = Inr (uid', m4)" and i: "index uid' = index uid" for uid' m4
    using create_reuse[OF inv3 c] r3 g3 i g by simp
  with al show ?thesis by blast
qed

text \<open>
  C5 fails as stated. In \<open>wrap_ops\<close> the first id created is \<open>(0, 0)\<close>; it is destroyed by
  call number 1025; the id created for slot 0 two rounds later has generation 2, not 1; and
  at the end of the sequence, when slot 0 has been destroyed 256 times, \<open>(0, 0)\<close> is alive.
\<close>

theorem destroyed_id_alive_again_counterexample:
  "run unit_manager_init () wrap_ops = Inr (wrap_ids, all_free NUM_SLOTS 0, ()) \<and>
   wrap_ids ! 0 = make_unit 0 0 \<and>
   wrap_ops ! NUM_SLOTS = Destroy (make_unit 0 0) \<and>
   wrap_ids ! (2 * NUM_SLOTS) = make_unit 0 2 \<and>
   index (make_unit 0 2) = index (make_unit 0 0) \<and>
   id_gen (make_unit 0 0) = 0 \<and> id_gen (make_unit 0 2) = 2 \<and>
   alive (all_free NUM_SLOTS 0) (make_unit 0 0) = Inr True"
proof -
  have p: "0 < NUM_SLOTS" by (simp add: NUM_SLOTS_def)
  have a: "wrap_ids ! 0 = make_unit 0 0"
    using wrap_ids_nth[OF p, of 0] by simp
  have b: "wrap_ids ! (2 * NUM_SLOTS) = make_unit 0 2"
    using wrap_ids_nth[OF p, of 2] by simp
  have g: "id_gen (make_unit 0 g) = ucast g" for g
    by (rule id_gen_make_unit) (simp add: UNIT_INDEX_BITS_def)
  show ?thesis
    by (simp add: run_wrap_ops a b wrap_ops_first_destroy slot_zero g alive_all_free)
qed

text \<open>
  The hypotheses of \<open>generation_after_destroy\<close> at a concrete run: 1025 units are created,
  \<open>(0, 0)\<close> is destroyed, then the other 1024; \<open>(0, 0)\<close> is not alive, and the next \<open>create\<close>
  recycles slot 0 with generation 1.
\<close>

theorem generation_after_destroy_witness:
  "run unit_manager_init () (replicate NUM_SLOTS Create) =
     Inr (map (\<lambda>i. make_unit (word_of_nat i) 0) [0..<NUM_SLOTS],
          \<lparr>generation = replicate NUM_SLOTS 0, free_indices = [], destroy_callbacks = []\<rparr>, ()) \<and>
   alive \<lparr>generation = replicate NUM_SLOTS 0, free_indices = [],
          destroy_callbacks = ([] :: unit DestroyData list)\<rparr> (make_unit 0 0) = Inr True \<and>
   destroy \<lparr>generation = replicate NUM_SLOTS 0, free_indices = [], destroy_callbacks = []\<rparr>
       (make_unit 0 0) () =
     Inr (\<lparr>generation = 1 # replicate (NUM_SLOTS - 1) 0, free_indices = [0],
           destroy_callbacks = []\<rparr>, ()) \<and>
   run \<lparr>generation = 1 # replicate (NUM_SLOTS - 1) 0, free_indices = [0],
        destroy_callbacks = []\<rparr> ()
       (map (\<lambda>i. Destroy (make_unit (word_of_nat i) 0)) [1..<NUM_SLOTS]) =
     Inr ([], all_free NUM_SLOTS 1, ()) \<and>
   alive (all_free NUM_SLOTS 1) (make_unit 0 0) = Inr False \<and>
   create (all_free NUM_SLOTS 1) =
     Inr (make_unit 0 1,
          \<lparr>generation = replicate NUM_SLOTS 1, free_indices = map word_of_nat [1..<NUM_SLOTS],
           destroy_callbacks = []\<rparr>) \<and>
   index (make_unit 0 1) = index (make_unit 0 0) \<and>
   id_gen (make_unit 0 1) = 1"
proof -
  let ?m1 = "\<lparr>generation = replicate NUM_SLOTS 0, free_indices = [],
          destroy_callbacks = ([] :: unit DestroyData list)\<rparr>"
  let ?m2 = "\<lparr>generation = 1 # replicate (NUM_SLOTS - 1) 0, free_indices = [0],
           destroy_callbacks = ([] :: unit DestroyData list)\<rparr>"
  let ?ops2 = "map (\<lambda>i. Destroy (make_unit (word_of_nat i) 0)) [1..<NUM_SLOTS]"
  have h1: "run unit_manager_init () (replicate NUM_SLOTS Create) =
     Inr (map (\<lambda>i. make_unit (word_of_nat i) 0) [0..<NUM_SLOTS], ?m1, ())"
    using run_creates[of 0 NUM_SLOTS] by (simp add: unit_manager_init_def)
  have h2: "alive ?m1 (make_unit 0 0) = Inr True"
    using alive_all_free[of 0 0] by (simp add: alive_def all_free_def)
  have "NUM_SLOTS = Suc (NUM_SLOTS - 1)" by (simp add: NUM_SLOTS_def)
  then have rs: "replicate NUM_SLOTS (0::u8) = 0 # replicate (NUM_SLOTS - 1) 0"
    by (metis replicate_Suc)
  have h3: "destroy ?m1 (make_unit 0 0) () = Inr (?m2, ())"
    by (subst destroy_no_callbacks) (simp_all add: slot_zero rs)
  have h4: "run ?m2 () ?ops2 = Inr ([], all_free NUM_SLOTS 1, ())"
    by (rule fill_after_first)
  have "index d \<noteq> index (make_unit 0 0)" if "Destroy d \<in> set ?ops2" for d
  proof -
    from that obtain i where i: "1 \<le> i" "i < NUM_SLOTS" and d: "d = make_unit (word_of_nat i) 0"
      by auto
    from slot_word(1)[OF i(2)] slot_word(3)[OF i(2), of 0] i(1) d have "unat (index d) \<noteq> 0" by simp
    then show ?thesis by (auto simp: slot_zero)
  qed
  then have k: "destroys_at (index (make_unit 0 0)) ?ops2 = 0"
    by (intro destroys_at_zero) blast
  have c: "create (all_free NUM_SLOTS 1) =
     Inr (make_unit 0 1,
          \<lparr>generation = replicate NUM_SLOTS 1, free_indices = map word_of_nat [1..<NUM_SLOTS],
           destroy_callbacks = []\<rparr>)"
    by (rule create_all_free)
  have i: "index (make_unit 0 1) = index (make_unit 0 0)"
    by (simp add: slot_zero)
  have g0: "id_gen (make_unit 0 0) = 0"
    using id_gen_make_unit[of 0 0] by (simp add: UNIT_INDEX_BITS_def)
  from generation_after_destroy[OF h1 h2 h3 h4] k c i g0
  have "alive (all_free NUM_SLOTS 1) (make_unit 0 0) = Inr False"
    and "id_gen (make_unit 0 1) = 1"
    by simp_all
  with h1 h2 h3 h4 c i show ?thesis by simp
qed

text \<open>
  C6, as the code has it. \<open>destroy\<close> calls every entry of the subscription array once, from
  the first entry to the last, each with the id given to \<open>destroy\<close> and the entry's own
  context. Subscriptions registered one after the other are appended in that order, so
  with no \<open>unregister\<close> in between they are called in registration order.
\<close>

theorem destroy_callbacks_in_array_order:
  assumes "destroy (register_all m regs) uid w = Inr (m', w')"
  shows "w' = fold (\<lambda>(fn, ud). fn uid ud)
                (map (\<lambda>dd. (dd_destroy dd, user_data dd)) (destroy_callbacks m) @ regs) w"
proof -
  have "w' = fold (\<lambda>dd. dd_destroy dd uid (user_data dd))
               (destroy_callbacks (register_all m regs)) w"
    using assms
    by (auto simp: destroy_def Let_def trigger_destroy_callbacks_def trigger_loop_fold
        split: sum.splits)
  also have "\<dots> = fold (\<lambda>(fn, ud). fn uid ud)
       (map (\<lambda>dd. (dd_destroy dd, user_data dd)) (destroy_callbacks (register_all m regs))) w"
    by (simp add: fold_map comp_def)
  also have "map (\<lambda>dd. (dd_destroy dd, user_data dd)) (destroy_callbacks (register_all m regs)) =
      map (\<lambda>dd. (dd_destroy dd, user_data dd)) (destroy_callbacks m) @ regs"
    by (simp add: register_all_callbacks comp_def case_prod_unfold)
  finally show ?thesis .
qed

theorem destroy_callbacks_in_array_order_witness:
  "destroy (register_all \<lparr>generation = [0], free_indices = [], destroy_callbacks = []\<rparr>
              [(log_call 1, 10), (log_call 2, 20)]) (make_unit 0 0) [] =
     Inr (\<lparr>generation = [1], free_indices = [0],
            destroy_callbacks = [\<lparr>dd_destroy = log_call 1, user_data = 10\<rparr>,
                                 \<lparr>dd_destroy = log_call 2, user_data = 20\<rparr>]\<rparr>,
          [(1, make_unit 0 0, 10), (2, make_unit 0 0, 20)])"
proof -
  let ?m = "\<lparr>generation = [0::u8], free_indices = [],
             destroy_callbacks = ([] :: (nat \<times> UnitId \<times> nat) list DestroyData list)\<rparr>"
  let ?regs = "[(log_call 1, 10), (log_call 2, 20)]"
  obtain m' w' where d: "destroy (register_all ?m ?regs) (make_unit 0 0) [] = Inr (m', w')"
    by (simp add: destroy_def Let_def array_get_def slot_zero register_destroy_function_def)
  from destroy_callbacks_in_array_order[OF d]
  have "w' = [(1, make_unit 0 0, 10), (2, make_unit 0 0, 20)]"
    by (simp add: log_call_def)
  with d show ?thesis
    by (auto simp: destroy_def Let_def array_get_def slot_zero register_destroy_function_def)
qed

text \<open>
  C6 fails as stated. Three subscriptions are registered, with contexts 10, 20 and 30, and
  the first is unregistered: the last one takes its place. \<open>destroy\<close> then calls the
  subscription registered third before the one registered second.
\<close>

theorem destroy_callbacks_order_counterexample:
  "unregister_destroy_function
     (register_all \<lparr>generation = [0], free_indices = [], destroy_callbacks = []\<rparr>
        [(log_call 1, 10), (log_call 2, 20), (log_call 3, 30)]) 10 =
     Inr \<lparr>generation = [0], free_indices = [],
          destroy_callbacks = [\<lparr>dd_destroy = log_call 3, user_data = 30\<rparr>,
                               \<lparr>dd_destroy = log_call 2, user_data = 20\<rparr>]\<rparr> \<and>
   destroy \<lparr>generation = [0], free_indices = [],
          destroy_callbacks = [\<lparr>dd_destroy = log_call 3, user_data = 30\<rparr>,
                               \<lparr>dd_destroy = log_call 2, user_data = 20\<rparr>]\<rparr>
       (make_unit 0 0) [] =
     Inr (\<lparr>generation = [1], free_indices = [0],
           destroy_callbacks = [\<lparr>dd_destroy = log_call 3, user_data = 30\<rparr>,
                                \<lparr>dd_destroy = log_call 2, user_data = 20\<rparr>]\<rparr>,
          [(3, make_unit 0 0, 30), (2, make_unit 0 0, 20)])"
  by (simp add: unregister_destroy_function_def register_destroy_function_def
      destroy_def Let_def array_get_def slot_zero trigger_destroy_callbacks_def
      trigger_loop_fold log_call_def numeral_3_eq_3)


section \<open>Properties of the UnitCompiler\<close>

lemma compile_component_eq:
  "compile_component s type json =
    (if \<not> sort_map_has (component_data s) type then Inl (CompileError ''Unknown component'')
     else (case ctd_compiler (sort_map_get (component_data s) type ctd_default) json of
             Inl msg \<Rightarrow> Inl (CompileError msg)
           | Inr buf \<Rightarrow> Inr buf))"
  by (simp add: compile_component_def DATA_COMPILER_ASSERT_def)


lemma map_of_sort_map_set:
  "map_of (sort_map_set m k v) = (map_of m)(k \<mapsto> v)"
  by (induction m k v rule: sort_map_set.induct) auto

lemma sort_map_has_set:
  "sort_map_has (sort_map_set m k v) k' \<longleftrightarrow> k' = k \<or> sort_map_has m k'"
  by (simp add: sort_map_has_def map_of_sort_map_set)

lemma sort_map_get_set:
  "sort_map_get (sort_map_set m k v) k' d = (if k' = k then v else sort_map_get m k' d)"
  by (simp add: sort_map_get_def map_of_sort_map_set)

lemma add_component_data_has:
  "sort_map_has (component_data (add_component_data s t buf u)) t' = sort_map_has (component_data s) t'"
  by (auto simp: add_component_data_def Let_def sort_map_has_set)

lemma add_component_data_num_units:
  "num_units (add_component_data s t buf u) = num_units s"
  by (simp add: add_component_data_def Let_def)

lemma add_component_data_info:
  "component_info (add_component_data s t buf u) = component_info s"
  by (simp add: add_component_data_def Let_def)

lemma add_component_data_get_other:
  "t' \<noteq> t \<Longrightarrow>
   sort_map_get (component_data (add_component_data s t buf u)) t' d =
   sort_map_get (component_data s) t' d"
  by (simp add: add_component_data_def Let_def sort_map_get_set)

lemma compile_components_Inr:
  "compile_components s cs = Inr s' \<Longrightarrow>
   num_units s' = num_units s \<and> component_info s' = component_info s \<and>
   (\<forall>t. sort_map_has (component_data s') t = sort_map_has (component_data s) t) \<and>
   (\<forall>t d. t \<notin> c_type ` set cs \<longrightarrow>
      sort_map_get (component_data s') t d = sort_map_get (component_data s) t d)"
proof (induction s cs rule: compile_components.induct)
  case (1 s)
  then show ?case by simp
next
  case (2 s c cs)
  from "2.prems" obtain buf where
    b: "compile_component s (c_type c) (c_data c) = Inr buf"
    and r: "compile_components (add_component_data s (c_type c) buf (num_units s)) cs = Inr s'"
    by (auto split: sum.splits)
  from "2.IH"[OF b r] show ?case
    by (simp add: add_component_data_has add_component_data_num_units add_component_data_info
        add_component_data_get_other)
qed

lemma compile_components_append:
  "compile_components s (cs1 @ cs2) =
    (case compile_components s cs1 of Inl r \<Rightarrow> Inl r | Inr s1 \<Rightarrow> compile_components s1 cs2)"
proof (induction s cs1 rule: compile_components.induct)
  case (1 s)
  then show ?case by simp
next
  case (2 s c cs)
  then show ?case by (simp split: sum.splits)
qed

lemma compile_components_unknown:
  assumes "c \<in> set cs" and "\<not> sort_map_has (component_data s) (c_type c)"
  shows "\<exists>msg s'. compile_components s cs = Inl (CompileError msg, s')"
  using assms
proof (induction s cs rule: compile_components.induct)
  case (1 s)
  then show ?case by simp
next
  case (2 s c' cs)
  show ?case
  proof (cases "compile_component s (c_type c') (c_data c')")
    case (Inl e)
    then obtain msg where "e = CompileError msg"
      by (auto simp: compile_component_eq split: if_splits sum.splits)
    with Inl show ?thesis by simp
  next
    case (Inr buf)
    then have "sort_map_has (component_data s) (c_type c')"
      by (auto simp: compile_component_eq split: if_splits)
    with "2.prems" have "c \<in> set cs" by auto
    moreover have "\<not> sort_map_has
        (component_data (add_component_data s (c_type c') buf (num_units s))) (c_type c)"
      using "2.prems"(2) by (simp add: add_component_data_has)
    ultimately show ?thesis
      using "2.IH"[OF Inr] Inr by simp
  qed
qed



lemma u32_two_le_one: "\<not> (2::u32) \<le> 1"
  by (simp add: word_le_nat_alt)

lemma two_type_compiler_eq:
  "two_type_compiler =
    \<lparr> num_units = 0,
      component_data = [(1, ctd_default\<lparr>ctd_compiler := raw_encoder\<rparr>),
                        (2, ctd_default\<lparr>ctd_compiler := raw_encoder\<rparr>)],
      component_info = [\<lparr> cti_type = 1, cti_spawn_order = 0 \<rparr>,
                        \<lparr> cti_type = 2, cti_spawn_order = 1 \<rparr>] \<rparr>"
  by (simp add: two_type_compiler_def register_component_compiler_def unit_compiler_empty_def
      sort_map_sort_def cti_key_def Let_def u32_two_le_one)

lemma raw_encoder_A: "raw_encoder ''A'' = Inr [65]"
  by (simp add: raw_encoder_def)

lemma resolve_no_prefab:
  "prefab doc = None \<Longrightarrow> resolve_prefabs gp fs doc = Inr (components doc)"
  by (simp add: resolve_prefabs_def load_prefabs.simps countof_prefabs_def)



lemma component_index_loop_found:
  "component_index_loop gp comps g i = k \<Longrightarrow> k \<noteq> UINT32_MAX \<Longrightarrow>
   k < length comps \<and> gp (c_id (comps ! k)) = g"
proof (induction gp comps g i rule: component_index_loop.induct)
  case (1 gp comps idd i)
  show ?case
  proof (cases "i < length comps")
    case True
    show ?thesis
    proof (cases "gp (c_id (comps ! i)) = idd")
      case m: True
      with True "1.prems" show ?thesis
        by (simp add: component_index_loop.simps[of gp comps idd i])
    next
      case False
      with True "1.prems" "1.IH"[OF True False] show ?thesis
        by (simp add: component_index_loop.simps[of gp comps idd i])
    qed
  next
    case False
    with "1.prems" show ?thesis
      by (simp add: component_index_loop.simps[of gp comps idd i])
  qed
qed

lemma length_apply_modified:
  "length (apply_modified gp original mods working) = length working"
  by (induction mods arbitrary: working) (auto simp: Let_def)

text \<open>What a \<open>modified_components\<close> object does to the slot of the component with GUID \<open>g\<close>.\<close>

lemma apply_modified_slot:
  assumes "k = component_index_loop gp original g 0" and "k \<noteq> UINT32_MAX"
  shows "k < length working \<Longrightarrow>
    apply_modified gp original mods working ! k =
      (let vs = map snd (filter (\<lambda>(key, val). gp (take 36 (drop 1 key)) = g) mods)
       in if vs = [] then working ! k else last vs)"
proof (induction mods arbitrary: working)
  case Nil
  then show ?case by simp
next
  case (Cons kv rest)
  obtain key val where kv: "kv = (key, val)" by (cases kv)
  let ?ci = "component_index gp original (drop 1 key)"
  let ?w = "if ?ci \<noteq> UINT32_MAX then working[?ci := val] else working"
  have lw: "k < length ?w" using Cons.prems by simp
  have ih: "apply_modified gp original rest ?w ! k =
      (let vs = map snd (filter (\<lambda>(key, val). gp (take 36 (drop 1 key)) = g) rest)
       in if vs = [] then ?w ! k else last vs)"
    using Cons.IH[OF lw] .
  have unf: "apply_modified gp original (kv # rest) working = apply_modified gp original rest ?w"
    by (simp add: kv Let_def)
  show ?case
  proof (cases "gp (take 36 (drop 1 key)) = g")
    case True
    then have "?ci = k" using assms(1) by (simp add: component_index_def)
    then have "?w ! k = val" using assms(2) Cons.prems by simp
    then show ?thesis unfolding unf using ih True by (simp add: Let_def kv)
  next
    case False
    have "?ci \<noteq> k"
    proof
      assume e: "?ci = k"
      then have "component_index_loop gp original (gp (take 36 (drop 1 key))) 0 = k"
        by (simp add: component_index_def)
      from component_index_loop_found[OF this assms(2)]
        component_index_loop_found[OF assms(1)[symmetric] assms(2)]
      show False using False by simp
    qed
    then have "?w ! k = working ! k" by simp
    then show ?thesis unfolding unf using ih False by (simp add: Let_def kv)
  qed
qed

lemma apply_level_slot:
  assumes "k = component_index_loop gp original g 0" and "k \<noteq> UINT32_MAX"
    and "k < length working"
  shows "(case modified_components p of None \<Rightarrow> working
          | Some mods \<Rightarrow> apply_modified gp original mods working) ! k =
         (if guid_overrides gp p g = [] then working ! k else last (guid_overrides gp p g))"
  using apply_modified_slot[OF assms]
  by (simp add: guid_overrides_def Let_def split: option.splits)

lemma length_apply_level:
  "length (case modified_components p of None \<Rightarrow> working
           | Some mods \<Rightarrow> apply_modified gp original mods working) = length working"
  by (simp add: length_apply_modified split: option.splits)

lemma merge_prefabs_step:
  "i < n \<Longrightarrow> merge_prefabs gp prefabs n original i working =
     merge_prefabs gp prefabs n original (Suc i)
       (case modified_components (prefabs ! (n - Suc i)) of None \<Rightarrow> working
        | Some mods \<Rightarrow> apply_modified gp original mods working)"
  by (simp add: merge_prefabs.simps[of gp prefabs n original i working] Let_def)

lemma merge_prefabs_done:
  "\<not> i < n \<Longrightarrow> merge_prefabs gp prefabs n original i working = working"
  by (simp add: merge_prefabs.simps[of gp prefabs n original i working])

lemma length_merge_prefabs:
  "length (merge_prefabs gp prefabs n original i working) = length working"
proof (induction "n - i" arbitrary: i working)
  case 0
  then show ?case by (simp add: merge_prefabs_done)
next
  case (Suc d)
  then have "i < n" and "d = n - Suc i" by simp_all
  with Suc.hyps(1)[of "Suc i"] show ?case
    by (simp add: merge_prefabs_step length_apply_level)
qed

text \<open>Levels without an override of \<open>g\<close> leave the slot as it is.\<close>

lemma merge_prefabs_untouched:
  assumes "k = component_index_loop gp original g 0" and "k \<noteq> UINT32_MAX"
  shows "k < length working \<Longrightarrow> \<forall>j < n - i. guid_overrides gp (prefabs ! j) g = [] \<Longrightarrow>
    merge_prefabs gp prefabs n original i working ! k = working ! k"
proof (induction "n - i" arbitrary: i working)
  case 0
  then show ?case by (simp add: merge_prefabs_done)
next
  case (Suc d)
  then have lt: "i < n" and d: "d = n - Suc i" by simp_all
  let ?p = "prefabs ! (n - Suc i)"
  let ?w = "case modified_components ?p of None \<Rightarrow> working
            | Some mods \<Rightarrow> apply_modified gp original mods working"
  have none: "guid_overrides gp ?p g = []" using Suc.prems(2) lt by simp
  have w: "?w ! k = working ! k"
    using apply_level_slot[OF assms Suc.prems(1), of ?p] none by simp
  have lw: "k < length ?w" using Suc.prems(1) by (simp add: length_apply_level)
  have rest: "\<forall>j < n - Suc i. guid_overrides gp (prefabs ! j) g = []"
    using Suc.prems(2) by simp
  from Suc.hyps(1)[OF d lw rest] w show ?case
    by (simp add: merge_prefabs_step[OF lt])
qed

text \<open>The slot ends with the last value of the leaf-most level that overrides \<open>g\<close>.\<close>

lemma merge_prefabs_leaf_most:
  assumes "k = component_index_loop gp original g 0" and "k \<noteq> UINT32_MAX"
  shows "k < length working \<Longrightarrow> b < n - i \<Longrightarrow> guid_overrides gp (prefabs ! b) g \<noteq> [] \<Longrightarrow>
    \<forall>j < b. guid_overrides gp (prefabs ! j) g = [] \<Longrightarrow>
    merge_prefabs gp prefabs n original i working ! k = last (guid_overrides gp (prefabs ! b) g)"
proof (induction "n - i" arbitrary: i working)
  case 0
  then show ?case by simp
next
  case (Suc d)
  then have lt: "i < n" and d: "d = n - Suc i" by simp_all
  let ?p = "prefabs ! (n - Suc i)"
  let ?w = "case modified_components ?p of None \<Rightarrow> working
            | Some mods \<Rightarrow> apply_modified gp original mods working"
  have lw: "k < length ?w" using Suc.prems(1) by (simp add: length_apply_level)
  show ?case
  proof (cases "b = n - Suc i")
    case e: True
    have w: "?w ! k = last (guid_overrides gp (prefabs ! b) g)"
      using apply_level_slot[OF assms Suc.prems(1), of ?p] Suc.prems(3) e by simp
    have "\<forall>j < n - Suc i. guid_overrides gp (prefabs ! j) g = []"
      using Suc.prems(4) e by simp
    from merge_prefabs_untouched[OF assms lw this] w show ?thesis
      by (simp add: merge_prefabs_step[OF lt])
  next
    case False
    then have "b < n - Suc i" using Suc.prems(2) by simp
    from Suc.hyps(1)[OF d lw this Suc.prems(3) Suc.prems(4)] show ?thesis
      by (simp add: merge_prefabs_step[OF lt])
  qed
qed



lemma load_prefabs_None:
  "i < countof_prefabs \<Longrightarrow> prefab (ps ! i) = None \<Longrightarrow> load_prefabs fs ps i m = Inr (ps, m)"
  by (simp add: load_prefabs.simps[of fs ps i m])

lemma load_prefabs_missing:
  "i < countof_prefabs \<Longrightarrow> prefab (ps ! i) = Some path \<Longrightarrow> fs path = None \<Longrightarrow>
   load_prefabs fs ps i m = Inl (CompileError (''Resource not found: '' @ path @ ''.unit''))"
  by (simp add: load_prefabs.simps[of fs ps i m])

lemma load_prefabs_Some:
  "i < countof_prefabs \<Longrightarrow> prefab (ps ! i) = Some path \<Longrightarrow> fs path = Some d \<Longrightarrow>
   load_prefabs fs ps i m =
     (if i + 1 < length ps then load_prefabs fs (ps[i + 1 := d]) (i + 1) (m + 1)
      else Inl (SlotOutOfBounds (i + 1)))"
  by (simp add: load_prefabs.simps[of fs ps i m])

text \<open>
  What the first loop returns: slot \<open>j + 1\<close> holds the document that the \<open>prefab\<close> field of
  slot \<open>j\<close> names, for the \<open>num_prefabs\<close> slots in use, and the last of them has no such
  field.
\<close>

lemma load_prefabs_chain:
  "load_prefabs fs ps i m = Inr (prefabs, n) \<Longrightarrow> m = Suc i \<Longrightarrow>
   length ps = countof_prefabs \<Longrightarrow> i < countof_prefabs \<Longrightarrow>
   n \<le> countof_prefabs \<and> i < n \<and> length prefabs = countof_prefabs \<and>
   (\<forall>j \<le> i. prefabs ! j = ps ! j) \<and>
   (\<forall>j. i \<le> j \<and> Suc j < n \<longrightarrow>
      (\<exists>path. prefab (prefabs ! j) = Some path \<and> fs path = Some (prefabs ! Suc j))) \<and>
   prefab (prefabs ! (n - 1)) = None"
proof (induction fs ps i m rule: load_prefabs.induct)
  case (1 fs ps i m)
  show ?case
  proof (cases "prefab (ps ! i)")
    case None
    with "1.prems" have "prefabs = ps" "n = Suc i"
      by (simp_all add: load_prefabs_None)
    with "1.prems" None show ?thesis by auto
  next
    case (Some path)
    with "1.prems" obtain d where d: "fs path = Some d"
      by (cases "fs path") (simp_all add: load_prefabs_missing)
    from "1.prems" Some d have in_range: "i + 1 < length ps"
      by (auto simp: load_prefabs_Some split: if_splits)
    with "1.prems" Some d
    have r: "load_prefabs fs (ps[i + 1 := d]) (i + 1) (m + 1) = Inr (prefabs, n)"
      by (simp add: load_prefabs_Some)
    have m': "m + 1 = Suc (i + 1)" using "1.prems"(2) by simp
    have l': "length (ps[i + 1 := d]) = countof_prefabs" using "1.prems"(3) by simp
    have i': "i + 1 < countof_prefabs" using in_range "1.prems"(3) by simp
    from "1.IH"[OF "1.prems"(4) Some d in_range r m' l' i']
    have n: "n \<le> countof_prefabs" and lt: "i + 1 < n" and lp: "length prefabs = countof_prefabs"
      and same: "\<forall>j \<le> i + 1. prefabs ! j = ps[i + 1 := d] ! j"
      and link: "\<forall>j. i + 1 \<le> j \<and> Suc j < n \<longrightarrow>
          (\<exists>path. prefab (prefabs ! j) = Some path \<and> fs path = Some (prefabs ! Suc j))"
      and last: "prefab (prefabs ! (n - 1)) = None"
      by simp_all
    from same have s0: "\<forall>j \<le> i. prefabs ! j = ps ! j" by auto
    from same in_range have s1: "prefabs ! Suc i = d" by auto
    have "\<exists>path. prefab (prefabs ! j) = Some path \<and> fs path = Some (prefabs ! Suc j)"
      if j: "i \<le> j \<and> Suc j < n" for j
    proof (cases "j = i")
      case True
      with s0 s1 Some d show ?thesis by simp
    next
      case False
      with j have "i + 1 \<le> j \<and> Suc j < n" by simp
      with link show ?thesis by blast
    qed
    with n lt lp s0 last show ?thesis by simp
  qed
qed



text \<open>
  The converse: a chain of at most \<open>countof(prefabs)\<close> levels, each level but the last
  naming a file that is there, is loaded, whole, into the slots.
\<close>

lemma load_prefabs_loads:
  assumes "length chain \<le> countof_prefabs"
    and "\<forall>j. Suc j < length chain \<longrightarrow>
          (\<exists>path. prefab (chain ! j) = Some path \<and> fs path = Some (chain ! Suc j))"
    and "prefab (chain ! (length chain - 1)) = None"
  shows "length ps = countof_prefabs \<Longrightarrow> i < length chain \<Longrightarrow> \<forall>j \<le> i. ps ! j = chain ! j \<Longrightarrow>
    \<exists>prefabs. load_prefabs fs ps i (Suc i) = Inr (prefabs, length chain) \<and>
      (\<forall>j < length chain. prefabs ! j = chain ! j)"
proof (induction "length chain - i" arbitrary: i ps)
  case 0
  then show ?case by simp
next
  case (Suc d)
  have ic: "i < countof_prefabs" using Suc.prems(2) assms(1) by simp
  have pi: "ps ! i = chain ! i" using Suc.prems(3) by simp
  show ?case
  proof (cases "Suc i = length chain")
    case True
    then have "length chain - 1 = i" by arith
    then have "prefab (ps ! i) = None" using assms(3) pi by simp
    then have "load_prefabs fs ps i (Suc i) = Inr (ps, length chain)"
      using True by (simp add: load_prefabs_None[OF ic])
    moreover have "\<forall>j < length chain. ps ! j = chain ! j"
      using Suc.prems(3) True by auto
    ultimately show ?thesis by blast
  next
    case False
    then have lt: "Suc i < length chain" using Suc.prems(2) by simp
    with assms(2) obtain path where p: "prefab (chain ! i) = Some path"
      and f: "fs path = Some (chain ! Suc i)" by blast
    have r: "i + 1 < length ps" using lt assms(1) Suc.prems(1) by simp
    have d: "d = length chain - Suc i" using Suc.hyps(2) by simp
    have l: "length (ps[i + 1 := chain ! Suc i]) = countof_prefabs" using Suc.prems(1) by simp
    have s: "\<forall>j \<le> Suc i. ps[i + 1 := chain ! Suc i] ! j = chain ! j"
      using Suc.prems(3) r by (auto simp: nth_list_update le_Suc_eq)
    from Suc.hyps(1)[OF d l lt s]
    obtain prefabs where "load_prefabs fs (ps[i + 1 := chain ! Suc i]) (Suc i) (Suc (Suc i)) =
        Inr (prefabs, length chain)" and "\<forall>j < length chain. prefabs ! j = chain ! j"
      by blast
    then show ?thesis
      using p f r pi by (simp add: load_prefabs_Some[OF ic])
  qed
qed

lemma family_chain:
  "load_prefabs family_files ((replicate countof_prefabs empty_doc)[0 := child_unit]) 0 1 =
     Inr ([child_unit, parent_doc, grand_doc, empty_doc], 3)"
  by (simp add: load_prefabs.simps countof_prefabs_def family_files_def child_unit_def
      parent_doc_def grand_doc_def empty_doc_def numeral_eq_Suc)

lemma take_guid_B: "take 36 guid_B = guid_B"
  by (simp add: guid_B_def)

lemma index_guid_B:
  "component_index_loop (\<lambda>x. x) [comp_A, comp_B] guid_B 0 = 1"
  by (simp add: component_index_loop.simps[of _ _ _ 0] component_index_loop.simps[of _ _ _ "Suc 0"]
      comp_A_def comp_B_def guid_A_def guid_B_def)


subsection \<open>Reading back what was written\<close>


lemma rd32_le32: "rd32 (le32 w) = w"
  unfolding rd32_def le32_def
  apply simp
  apply (rule bit_word_eqI)
  apply (auto simp: bit_simps)
  subgoal for n by (cases "n < 24") simp_all
  done

lemma length_le32: "length (le32 w) = 4"
  by (simp add: le32_def)

lemma read_u32_le32: "read_u32 (le32 w @ rest) = Some (w, rest)"
  by (simp add: read_u32_def length_le32 rd32_le32)

lemma length_concat_le32: "length (concat (map le32 ws)) = 4 * length ws"
  by (induction ws) (simp_all add: length_le32)

lemma read_u32s_le32: "read_u32s (length ws) (concat (map le32 ws) @ rest) = Some (ws, rest)"
  by (induction ws) (simp_all add: read_u32_le32)

lemma read_bytes_append: "read_bytes (length bs) (bs @ rest) = Some (bs, rest)"
  by (simp add: read_bytes_def)



lemma map_fst_sort_map_set:
  "sort_map_has m k \<Longrightarrow> map fst (sort_map_set m k v) = map fst m"
  by (induction m k v rule: sort_map_set.induct) (auto simp: sort_map_has_def)

lemma add_component_data_keys:
  "map fst (component_data (add_component_data s t buf u)) = map fst (component_data s)"
  by (simp add: add_component_data_def Let_def map_fst_sort_map_set)

lemma add_component_data_get_same:
  "sort_map_has (component_data s) t \<Longrightarrow>
   sort_map_get (component_data (add_component_data s t buf u)) t d =
     (sort_map_get (component_data s) t ctd_default)
       \<lparr>ctd_data := ctd_data (sort_map_get (component_data s) t ctd_default) @ buf,
        ctd_unit_index := ctd_unit_index (sort_map_get (component_data s) t ctd_default) @ [u],
        ctd_num := ctd_num (sort_map_get (component_data s) t ctd_default) + 1\<rparr>"
  by (simp add: add_component_data_def Let_def sort_map_get_set)

lemma sort_map_get_has:
  "sort_map_has m k \<Longrightarrow> sort_map_get m k d = sort_map_get m k d'"
  by (auto simp: sort_map_has_def sort_map_get_def)

text \<open>What the components of one unit add to the entry of a registered type.\<close>

lemma compile_components_entry:
  "compile_components s cs = Inr s' \<Longrightarrow> sort_map_has (component_data s) t \<Longrightarrow>
   sort_map_get (component_data s') t ctd_default =
     (sort_map_get (component_data s) t ctd_default)
       \<lparr>ctd_data := ctd_data (sort_map_get (component_data s) t ctd_default) @
          concat (map (encoded (ctd_compiler (sort_map_get (component_data s) t ctd_default)))
                      (filter (\<lambda>c. c_type c = t) cs)),
        ctd_unit_index := ctd_unit_index (sort_map_get (component_data s) t ctd_default) @
          replicate (length (filter (\<lambda>c. c_type c = t) cs)) (num_units s),
        ctd_num := ctd_num (sort_map_get (component_data s) t ctd_default) +
          word_of_nat (length (filter (\<lambda>c. c_type c = t) cs))\<rparr>"
proof (induction s cs rule: compile_components.induct)
  case (1 s)
  then show ?case by simp
next
  case (2 s c cs)
  let ?s1 = "add_component_data s (c_type c) (case compile_component s (c_type c) (c_data c) of Inr b \<Rightarrow> b) (num_units s)"
  from "2.prems"(1) obtain buf where
    b: "compile_component s (c_type c) (c_data c) = Inr buf"
    and r: "compile_components (add_component_data s (c_type c) buf (num_units s)) cs = Inr s'"
    by (auto split: sum.splits)
  let ?s1 = "add_component_data s (c_type c) buf (num_units s)"
  have h1: "sort_map_has (component_data ?s1) t"
    using "2.prems"(2) by (simp add: add_component_data_has)
  note ih = "2.IH"[OF b r h1]
  show ?case
  proof (cases "c_type c = t")
    case True
    from b True have e: "encoded (ctd_compiler (sort_map_get (component_data s) t ctd_default)) c = buf"
      by (auto simp: compile_component_eq encoded_def split: if_splits sum.splits)
    show ?thesis
      using ih True e "2.prems"(2)
      by (simp add: add_component_data_get_same add_component_data_num_units
          replicate_append_same add.assoc)
  next
    case False
    then show ?thesis
      using ih by (simp add: add_component_data_get_other add_component_data_num_units)
  qed
qed

lemma compile_components_keys:
  "compile_components s cs = Inr s' \<Longrightarrow>
   map fst (component_data s') = map fst (component_data s)"
proof (induction s cs rule: compile_components.induct)
  case (1 s)
  then show ?case by simp
next
  case (2 s c cs)
  from "2.prems"(1) obtain buf where
    b: "compile_component s (c_type c) (c_data c) = Inr buf"
    and r: "compile_components (add_component_data s (c_type c) buf (num_units s)) cs = Inr s'"
    by (auto split: sum.splits)
  from "2.IH"[OF b r] show ?case by (simp add: add_component_data_keys)
qed



lemma length_expected_owners_shift:
  "length (expected_owners gp fs t u docs) = length (expected_owners gp fs t u' docs)"
  by (induction docs arbitrary: u u') auto

lemma compile_unit_from_json_Inr:
  assumes "compile_unit_from_json gp fs s d = Inr s'"
  shows "\<exists>s1. compile_components s (unit_components gp fs d) = Inr s1 \<and>
           s' = s1\<lparr>num_units := num_units s + 1\<rparr>"
proof -
  from assms obtain comps s1 where r: "resolve_prefabs gp fs d = Inr comps"
    and c: "compile_components s comps = Inr s1" and s': "s' = s1\<lparr>num_units := num_units s1 + 1\<rparr>"
    by (auto simp: compile_unit_from_json_def split: sum.splits)
  from compile_components_Inr[OF c] have "num_units s1 = num_units s" by simp
  with r c s' show ?thesis by (simp add: unit_components_def)
qed

text \<open>What a list of units adds to the entry of a registered type.\<close>

lemma compile_multiple_units_entry:
  "compile_multiple_units gp fs s docs = Inr s' \<Longrightarrow> sort_map_has (component_data s) t \<Longrightarrow>
   sort_map_get (component_data s') t ctd_default =
     (sort_map_get (component_data s) t ctd_default)
       \<lparr>ctd_data := ctd_data (sort_map_get (component_data s) t ctd_default) @
          expected_payload gp fs (ctd_compiler (sort_map_get (component_data s) t ctd_default)) t docs,
        ctd_unit_index := ctd_unit_index (sort_map_get (component_data s) t ctd_default) @
          expected_owners gp fs t (num_units s) docs,
        ctd_num := ctd_num (sort_map_get (component_data s) t ctd_default) +
          word_of_nat (length (expected_owners gp fs t (num_units s) docs))\<rparr>"
proof (induction docs arbitrary: s)
  case Nil
  then show ?case by simp
next
  case (Cons d docs)
  from Cons.prems(1) obtain s1 where u: "compile_unit_from_json gp fs s d = Inr s1"
    and r: "compile_multiple_units gp fs s1 docs = Inr s'"
    by (auto split: sum.splits)
  from compile_unit_from_json_Inr[OF u] obtain s0 where
    c: "compile_components s (unit_components gp fs d) = Inr s0"
    and s1: "s1 = s0\<lparr>num_units := num_units s + 1\<rparr>" by blast
  have h1: "sort_map_has (component_data s1) t"
    using compile_components_Inr[OF c] Cons.prems(2) s1 by simp
  have g1: "sort_map_get (component_data s1) t ctd_default =
      sort_map_get (component_data s0) t ctd_default" using s1 by simp
  have n1: "num_units s1 = num_units s + 1" using s1 by simp
  show ?case
    using Cons.IH[OF r h1] compile_components_entry[OF c Cons.prems(2)]
    by (simp add: g1 n1 add.assoc)
qed

lemma compile_multiple_units_Inr:
  "compile_multiple_units gp fs s docs = Inr s' \<Longrightarrow>
   num_units s' = num_units s + word_of_nat (length docs) \<and>
   component_info s' = component_info s \<and>
   map fst (component_data s') = map fst (component_data s)"
proof (induction docs arbitrary: s)
  case Nil
  then show ?case by simp
next
  case (Cons d docs)
  from Cons.prems(1) obtain s1 where u: "compile_unit_from_json gp fs s d = Inr s1"
    and r: "compile_multiple_units gp fs s1 docs = Inr s'"
    by (auto split: sum.splits)
  from compile_unit_from_json_Inr[OF u] obtain s0 where
    c: "compile_components s (unit_components gp fs d) = Inr s0"
    and s1: "s1 = s0\<lparr>num_units := num_units s + 1\<rparr>" by blast
  from compile_components_Inr[OF c] compile_components_keys[OF c] s1
  have "num_units s1 = num_units s + 1" "component_info s1 = component_info s"
    "map fst (component_data s1) = map fst (component_data s)" by simp_all
  with Cons.IH[OF r] show ?case by (simp add: add.assoc)
qed



subsection \<open>The registry\<close>

lemma register_list_snoc:
  "register_list s (regs @ [(t, f, p)]) = register_component_compiler (register_list s regs) t f p"
  by (simp add: register_list_def)

lemma map_fst_sort_map_set_new:
  "\<not> sort_map_has m k \<Longrightarrow> map fst (sort_map_set m k v) = map fst m @ [k]"
  by (induction m k v rule: sort_map_set.induct) (auto simp: sort_map_has_def)

lemma sort_map_has_keys: "sort_map_has m k \<longleftrightarrow> k \<in> set (map fst m)"
  by (simp add: sort_map_has_def map_of_eq_None_iff)

lemma keys_sort_map_set:
  "fst ` set (sort_map_set m k v) = insert k (fst ` set m)"
proof -
  have "set (map fst (sort_map_set m k v)) = insert k (set (map fst m))"
    by (cases "sort_map_has m k")
       (auto simp: map_fst_sort_map_set map_fst_sort_map_set_new sort_map_has_keys)
  then show ?thesis by simp
qed

lemma distinct_sort_map_set:
  "distinct (map fst m) \<Longrightarrow> distinct (map fst (sort_map_set m k v))"
  by (cases "sort_map_has m k")
     (auto simp: map_fst_sort_map_set map_fst_sort_map_set_new sort_map_has_keys)

lemma distinct_map_insort_key:
  "distinct (map f (insort_key g x xs)) \<longleftrightarrow> f x \<notin> f ` set xs \<and> distinct (map f xs)"
  by (induction xs) (auto simp: set_insort_key)

lemma distinct_map_sort_key:
  "distinct (map f (sort_key g xs)) \<longleftrightarrow> distinct (map f xs)"
  by (induction xs) (auto simp: distinct_map_insort_key)

lemma keys_sort_map_sort: "fst ` set (sort_map_sort m) = fst ` set m"
  by (simp add: sort_map_sort_def)

lemma distinct_sort_map_sort: "distinct (map fst (sort_map_sort m)) \<longleftrightarrow> distinct (map fst m)"
  by (simp add: sort_map_sort_def distinct_map_sort_key)

lemma map_of_sort_map_sort:
  "distinct (map fst m) \<Longrightarrow> map_of (sort_map_sort m) = map_of m"
  by (subst map_of_inject_set) (simp_all add: distinct_sort_map_sort, simp add: sort_map_sort_def)

text \<open>The registry after a list of distinct types has been registered.\<close>

lemma register_list_registry:
  assumes "distinct (map fst regs)"
  shows "distinct (map fst (component_data (register_list unit_compiler_empty regs))) \<and>
     set (map fst (component_data (register_list unit_compiler_empty regs))) = set (map fst regs) \<and>
     distinct (map cti_type (component_info (register_list unit_compiler_empty regs))) \<and>
     set (map cti_type (component_info (register_list unit_compiler_empty regs))) = set (map fst regs) \<and>
     length (component_info (register_list unit_compiler_empty regs)) = length regs \<and>
     num_units (register_list unit_compiler_empty regs) = 0 \<and>
     (\<forall>t f p. (t, f, p) \<in> set regs \<longrightarrow>
        map_of (component_data (register_list unit_compiler_empty regs)) t =
          Some (ctd_default\<lparr>ctd_compiler := f\<rparr>))"
  using assms
proof (induction regs rule: rev_induct)
  case Nil
  then show ?case by (simp add: register_list_def unit_compiler_empty_def)
next
  case (snoc r regs)
  obtain t f p where r: "r = (t, f, p)" by (cases r)
  let ?s = "register_list unit_compiler_empty regs"
  let ?m = "sort_map_set (component_data ?s) t (ctd_default\<lparr>ctd_compiler := f\<rparr>)"
  from snoc.prems have d: "distinct (map fst regs)" and new: "t \<notin> set (map fst regs)"
    by (simp_all add: r)
  note ih = snoc.IH[OF d]
  have dm: "distinct (map fst ?m)" using ih by (simp add: distinct_sort_map_set)
  have mo: "map_of (sort_map_sort ?m) = (map_of (component_data ?s))(t \<mapsto> ctd_default\<lparr>ctd_compiler := f\<rparr>)"
    using dm by (simp add: map_of_sort_map_sort map_of_sort_map_set)
  have s': "register_list unit_compiler_empty (regs @ [r]) =
      ?s\<lparr>component_data := sort_map_sort ?m,
         component_info := sort_key cti_key (component_info ?s @ [\<lparr>cti_type = t, cti_spawn_order = p\<rparr>])\<rparr>"
    by (simp add: r register_list_snoc register_component_compiler_def Let_def)
  have ih_map: "map_of (component_data ?s) t' = Some (ctd_default\<lparr>ctd_compiler := f'\<rparr>)"
    if "(t', f', p') \<in> set regs" for t' f' p'
    using ih that by blast
  have all: "map_of (sort_map_sort ?m) t' = Some (ctd_default\<lparr>ctd_compiler := f'\<rparr>)"
    if m: "(t', f', p') \<in> set (regs @ [r])" for t' f' p'
  proof (cases "(t', f', p') = r")
    case True
    then show ?thesis by (simp add: mo r)
  next
    case False
    with m have in_regs: "(t', f', p') \<in> set regs" by simp
    then have "t' \<in> set (map fst regs)" by force
    with new have "t' \<noteq> t" by auto
    with ih_map[OF in_regs] show ?thesis by (simp add: mo)
  qed
  have c1: "distinct (map fst (sort_map_sort ?m))"
    using dm by (simp add: distinct_sort_map_sort)
  have c2: "set (map fst (sort_map_sort ?m)) = set (map fst (regs @ [r]))"
    using ih by (simp add: keys_sort_map_sort keys_sort_map_set r)
  let ?info = "sort_key cti_key (component_info ?s @ [\<lparr>cti_type = t, cti_spawn_order = p\<rparr>])"
  have c3: "distinct (map cti_type ?info)"
    using ih new by (simp add: distinct_map_sort_key)
  have c4: "set (map cti_type ?info) = set (map fst (regs @ [r]))"
    using ih by (simp add: r)
  have c5: "length ?info = length (regs @ [r])" using ih by simp
  have c6: "num_units ?s = 0" using ih by simp
  show ?case
    unfolding s' using c1 c2 c3 c4 c5 c6 all by simp
qed

text \<open>The constructor is such a registration, of its ten names.\<close>

lemma unit_compiler_new_register_list:
  "unit_compiler_new sid enc =
     register_list unit_compiler_empty
       (map (\<lambda>(name, order). (sid name, enc name, order)) registered_names)"
  by (simp add: unit_compiler_new_def register_list_def foldl_map case_prod_unfold)

lemma sorted_register_component_compiler:
  "sorted (map cti_key (component_info (register_component_compiler s t f p)))"
  by (simp add: register_component_compiler_def Let_def)



lemma sorted_register_list:
  "sorted (map cti_key (component_info (register_list unit_compiler_empty regs)))"
proof (induction regs rule: rev_induct)
  case Nil
  then show ?case by (simp add: register_list_def unit_compiler_empty_def)
next
  case (snoc r regs)
  obtain t f p where "r = (t, f, p)" by (cases r)
  then show ?case
    by (simp only: register_list_snoc sorted_register_component_compiler)
qed

subsection \<open>The layout of the blob\<close>

lemma blob_sections_concat:
  "blob_sections m ctis buf =
     buf @ concat (map (\<lambda>cti. section_bytes (cti_type cti) (sort_map_get m (cti_type cti) ctd_default))
                       (filter (\<lambda>cti. ctd_num (sort_map_get m (cti_type cti) ctd_default) > 0) ctis))"
  by (induction ctis arbitrary: buf) (simp_all add: Let_def)

lemma blob_eq:
  "blob version s =
     le32 version @ le32 (num_units s) @ le32 (count_component_types (component_data s)) @
     concat (map (\<lambda>cti. section_bytes (cti_type cti)
                           (sort_map_get (component_data s) (cti_type cti) ctd_default))
                 (emitted_types s))"
  by (simp add: blob_def blob_sections_concat emitted_types_def)

lemma count_component_types_fold:
  "fold (\<lambda>(k, ctd) n. if ctd_num ctd > 0 then n + 1 else n) m (c::u32) =
     c + word_of_nat (length (filter (\<lambda>(k, ctd). ctd_num ctd > 0) m))"
  by (induction m arbitrary: c) (auto simp: add.assoc)

lemma count_component_types_filter:
  "count_component_types m = word_of_nat (length (filter (\<lambda>(k, ctd). ctd_num ctd > 0) m))"
  by (simp add: count_component_types_def count_component_types_fold)

text \<open>
  With one entry of the map for each entry of the listing, the first loop of \<open>blob\<close> counts
  the sections that the second loop emits.
\<close>

lemma count_matches_emitted:
  assumes dm: "distinct (map fst m)" and di: "distinct (map cti_type info)"
    and eq: "set (map fst m) = set (map cti_type info)"
  shows "length (filter (\<lambda>(k, ctd). ctd_num ctd > 0) m) =
         length (filter (\<lambda>cti. ctd_num (sort_map_get m (cti_type cti) ctd_default) > 0) info)"
proof -
  let ?Q = "\<lambda>k. ctd_num (sort_map_get m k ctd_default) > 0"
  have "filter (\<lambda>(k, ctd). ctd_num ctd > 0) m = filter (\<lambda>kv. ?Q (fst kv)) m"
  proof (rule filter_cong[OF refl])
    fix kv assume "kv \<in> set m"
    then have "map_of m (fst kv) = Some (snd kv)" using dm by simp
    then show "(case kv of (k, ctd) \<Rightarrow> ctd_num ctd > 0) = ?Q (fst kv)"
      by (simp add: sort_map_get_def case_prod_unfold)
  qed
  then have "length (filter (\<lambda>(k, ctd). ctd_num ctd > 0) m) = length (filter ?Q (map fst m))"
    by (simp add: filter_map comp_def)
  also have "\<dots> = card ({k. ?Q k} \<inter> set (map fst m))"
    using dm by (rule distinct_length_filter)
  also have "\<dots> = card ({k. ?Q k} \<inter> set (map cti_type info))"
    by (simp only: eq)
  also have "\<dots> = length (filter ?Q (map cti_type info))"
    using di by (rule distinct_length_filter[symmetric])
  also have "\<dots> = length (filter (\<lambda>cti. ?Q (cti_type cti)) info)"
    by (simp add: filter_map comp_def)
  finally show ?thesis .
qed

subsection \<open>Reading the sections\<close>

lemma unat_section_size:
  assumes "4 * length (ctd_unit_index ctd) + length (ctd_data ctd) + 3 < 2 ^ 32"
  shows "unat (section_size ctd) = length (ctd_data ctd) + 4 * length (ctd_unit_index ctd)"
    and "unat (section_pad ctd) = (length (ctd_data ctd) + 4 * length (ctd_unit_index ctd)) mod 4"
    and "unat (section_size ctd + section_pad ctd) =
         length (ctd_data ctd) + 4 * length (ctd_unit_index ctd) + unat (section_pad ctd)"
proof -
  let ?n = "length (ctd_data ctd) + 4 * length (ctd_unit_index ctd)"
  have e: "section_size ctd = word_of_nat ?n"
    by (simp add: section_size_def)
  have lt: "?n < 2 ^ 32" using assms by simp
  have "unat (word_of_nat ?n :: u32) = ?n"
    using lt by (subst unat_of_nat) simp
  then show s: "unat (section_size ctd) = ?n"
    by (simp only: e)
  show p: "unat (section_pad ctd) = ?n mod 4"
    using s by (simp add: section_pad_def alignof_ComponentData_def unat_mod)
  have "?n + ?n mod 4 < 2 ^ 32" using assms by simp
  then show "unat (section_size ctd + section_pad ctd) = ?n + unat (section_pad ctd)"
    using s p by (simp add: unat_add_lem[THEN iffD1])
qed

lemma read_section_bytes:
  assumes "unat (ctd_num ctd) = length (ctd_unit_index ctd)"
    and "4 * length (ctd_unit_index ctd) + length (ctd_data ctd) + 3 < 2 ^ 32"
  shows "read_section (section_bytes t ctd @ rest) =
    Some (\<lparr> sec_type = t, sec_num_instances = ctd_num ctd,
            sec_owner_indices = ctd_unit_index ctd,
            sec_payload = ctd_data ctd @ replicate (unat (section_pad ctd)) 0 \<rparr>, rest)"
proof -
  let ?pl = "ctd_data ctd @ replicate (unat (section_pad ctd)) 0"
  have sz: "unat (section_size ctd + section_pad ctd) - unat (ctd_num ctd) * 4 = length ?pl"
    and ge: "\<not> unat (section_size ctd + section_pad ctd) < unat (ctd_num ctd) * 4"
    using unat_section_size(3)[OF assms(2)] assms(1) by simp_all
  have r4: "read_u32s (unat (ctd_num ctd)) (concat (map le32 (ctd_unit_index ctd)) @ ?pl @ rest) =
      Some (ctd_unit_index ctd, ?pl @ rest)"
    unfolding assms(1) by (rule read_u32s_le32)
  have r5: "read_bytes (unat (section_size ctd + section_pad ctd) - unat (ctd_num ctd) * 4)
      (?pl @ rest) = Some (?pl, rest)"
    unfolding sz by (rule read_bytes_append)
  show ?thesis
    using r4 r5 ge
    by (simp add: read_section_def section_bytes_def read_u32_le32)
qed

lemma read_sections_concat:
  assumes "\<forall>x \<in> set xs. unat (ctd_num (cd x)) = length (ctd_unit_index (cd x)) \<and>
      4 * length (ctd_unit_index (cd x)) + length (ctd_data (cd x)) + 3 < 2 ^ 32"
  shows "read_sections (length xs) (concat (map (\<lambda>x. section_bytes (ty x) (cd x)) xs) @ rest) =
    Some (map (\<lambda>x. \<lparr> sec_type = ty x, sec_num_instances = ctd_num (cd x),
                      sec_owner_indices = ctd_unit_index (cd x),
                      sec_payload = ctd_data (cd x) @ replicate (unat (section_pad (cd x))) 0 \<rparr>) xs,
          rest)"
  using assms
proof (induction xs)
  case Nil
  then show ?case by simp
next
  case (Cons x xs)
  then have a: "unat (ctd_num (cd x)) = length (ctd_unit_index (cd x))"
    and b: "4 * length (ctd_unit_index (cd x)) + length (ctd_data (cd x)) + 3 < 2 ^ 32"
    by simp_all
  from Cons have ih: "read_sections (length xs)
      (concat (map (\<lambda>x. section_bytes (ty x) (cd x)) xs) @ rest) =
    Some (map (\<lambda>x. \<lparr> sec_type = ty x, sec_num_instances = ctd_num (cd x),
                      sec_owner_indices = ctd_unit_index (cd x),
                      sec_payload = ctd_data (cd x) @ replicate (unat (section_pad (cd x))) 0 \<rparr>) xs,
          rest)" by simp
  show ?case
    using read_section_bytes[OF a b, of "ty x"] ih by simp
qed


subsection \<open>The example compiler\<close>


lemma raw_encoder_BC: "raw_encoder ''BC'' = Inr [66, 67]"
  by (simp add: raw_encoder_def)

lemma compile_unit_AB:
  "compile_multiple_units (\<lambda>x. x) (\<lambda>p. None) two_type_compiler [unit_AB] = Inr compiled_AB"
  by (simp add: compile_unit_from_json_def resolve_no_prefab unit_AB_def
      two_type_compiler_eq compile_component_eq sort_map_has_def sort_map_get_def
      ctd_default_def raw_encoder_A raw_encoder_BC add_component_data_def Let_def compiled_AB_def)

lemma le32_small:
  "le32 0 = [0, 0, 0, 0]" "le32 1 = [1, 0, 0, 0]" "le32 2 = [2, 0, 0, 0]"
  "le32 6 = [6, 0, 0, 0]" "le32 7 = [7, 0, 0, 0]" "le32 8 = [8, 0, 0, 0]"
  by (simp_all add: le32_def)

lemma u32_mod4: "(5::u32) mod 4 = 1" "(6::u32) mod 4 = 2"
  by (simp_all add: word_mod_def)

lemma replicate_two_zero: "replicate 2 (0::u8) = [0, 0]"
  by (simp add: numeral_2_eq_2)

lemma blob_compiled_AB:
  "blob 7 compiled_AB =
     [7, 0, 0, 0,  1, 0, 0, 0,  2, 0, 0, 0,
      1, 0, 0, 0,  1, 0, 0, 0,  6, 0, 0, 0,  0, 0, 0, 0,  65,  0,
      2, 0, 0, 0,  1, 0, 0, 0,  8, 0, 0, 0,  0, 0, 0, 0,  66, 67,  0, 0]"
  by (simp add: blob_def compiled_AB_def count_component_types_def sort_map_get_def
      section_bytes_def section_size_def section_pad_def alignof_ComponentData_def
      le32_small u32_mod4 Let_def replicate_two_zero)



lemma section_bytes_size_field:
  "section_bytes t ctd =
     le32 t @ le32 (ctd_num ctd) @
     le32 (word_of_nat (4 * length (ctd_unit_index ctd) + length (ctd_data ctd)
                        + unat (section_pad ctd))) @
     concat (map le32 (ctd_unit_index ctd)) @ ctd_data ctd @
     replicate (unat (section_pad ctd)) 0"
  by (simp add: section_bytes_def section_size_def ac_simps)

lemma registered_compile:
  assumes d: "distinct (map fst regs)"
    and c: "compile_multiple_units gp fs (register_list unit_compiler_empty regs) docs = Inr s"
  shows "distinct (map fst (component_data s))"
    and "distinct (map cti_type (component_info s))"
    and "set (map fst (component_data s)) = set (map cti_type (component_info s))"
    and "set (map cti_type (component_info s)) = set (map fst regs)"
    and "length (component_info s) = length regs"
    and "sorted (map cti_key (component_info s))"
    and "num_units s = word_of_nat (length docs)"
proof -
  let ?s0 = "register_list unit_compiler_empty regs"
  note r = register_list_registry[OF d]
  note k = compile_multiple_units_Inr[OF c]
  show "distinct (map fst (component_data s))" using r k by simp
  show "distinct (map cti_type (component_info s))" using r k by simp
  show "set (map fst (component_data s)) = set (map cti_type (component_info s))"
    using r k by (metis)
  show "set (map cti_type (component_info s)) = set (map fst regs)" using r k by simp
  show "length (component_info s) = length regs" using r k by simp
  show "sorted (map cti_key (component_info s))" using sorted_register_list[of regs] k by simp
  show "num_units s = word_of_nat (length docs)" using r k by simp
qed

text \<open>The entry of a registered type after a list of units has been compiled.\<close>

lemma registered_compile_entry:
  assumes d: "distinct (map fst regs)"
    and c: "compile_multiple_units gp fs (register_list unit_compiler_empty regs) docs = Inr s"
    and m: "(t, f, p) \<in> set regs"
  shows "sort_map_get (component_data s) t ctd_default =
    \<lparr> ctd_compiler = f,
      ctd_num = word_of_nat (length (expected_owners gp fs t 0 docs)),
      ctd_unit_index = expected_owners gp fs t 0 docs,
      ctd_data = expected_payload gp fs f t docs \<rparr>"
proof -
  let ?s0 = "register_list unit_compiler_empty regs"
  from register_list_registry[OF d] m
  have mo: "map_of (component_data ?s0) t = Some (ctd_default\<lparr>ctd_compiler := f\<rparr>)"
    and n0: "num_units ?s0 = 0" by blast+
  then have h: "sort_map_has (component_data ?s0) t"
    and g: "sort_map_get (component_data ?s0) t ctd_default = ctd_default\<lparr>ctd_compiler := f\<rparr>"
    by (simp_all add: sort_map_has_def sort_map_get_def)
  note e = compile_multiple_units_entry[OF c h, unfolded g n0]
  have "ctd_default\<lparr>ctd_compiler := f\<rparr>
      \<lparr>ctd_data := ctd_data (ctd_default\<lparr>ctd_compiler := f\<rparr>) @
          expected_payload gp fs (ctd_compiler (ctd_default\<lparr>ctd_compiler := f\<rparr>)) t docs,
        ctd_unit_index := ctd_unit_index (ctd_default\<lparr>ctd_compiler := f\<rparr>) @
          expected_owners gp fs t 0 docs,
        ctd_num := ctd_num (ctd_default\<lparr>ctd_compiler := f\<rparr>) +
          word_of_nat (length (expected_owners gp fs t 0 docs))\<rparr> =
    \<lparr> ctd_compiler = f,
      ctd_num = word_of_nat (length (expected_owners gp fs t 0 docs)),
      ctd_unit_index = expected_owners gp fs t 0 docs,
      ctd_data = expected_payload gp fs f t docs \<rparr>"
    by (simp add: ctd_default_def)
  with e show ?thesis by (simp only:)
qed



lemma two_type_compiler_registered:
  "two_type_compiler = register_list unit_compiler_empty [(2, raw_encoder, 1), (1, raw_encoder, 0)]"
  by (simp add: two_type_compiler_def register_list_def)

lemma emitted_types_compiled_AB:
  "emitted_types compiled_AB =
     [\<lparr> cti_type = 1, cti_spawn_order = 0 \<rparr>, \<lparr> cti_type = 2, cti_spawn_order = 1 \<rparr>]"
  by (simp add: emitted_types_def compiled_AB_def sort_map_get_def)



lemma u32_unat_of_nat: "n < 2 ^ 32 \<Longrightarrow> unat (word_of_nat n :: u32) = n"
  by (subst unat_of_nat) simp

text \<open>Reading back the blob of a compiler whose registry and counts are in order.\<close>

lemma read_blob_blob:
  assumes dm: "distinct (map fst (component_data s))"
    and di: "distinct (map cti_type (component_info s))"
    and eq: "set (map fst (component_data s)) = set (map cti_type (component_info s))"
    and len: "length (component_info s) < 2 ^ 32"
    and ok: "\<forall>cti \<in> set (emitted_types s).
       unat (ctd_num (sort_map_get (component_data s) (cti_type cti) ctd_default)) =
         length (ctd_unit_index (sort_map_get (component_data s) (cti_type cti) ctd_default)) \<and>
       4 * length (ctd_unit_index (sort_map_get (component_data s) (cti_type cti) ctd_default)) +
         length (ctd_data (sort_map_get (component_data s) (cti_type cti) ctd_default)) + 3 < 2 ^ 32"
  shows "read_blob (blob version s) =
    Some (version, num_units s, map (stored_section s) (emitted_types s), [])"
proof -
  let ?cd = "\<lambda>cti. sort_map_get (component_data s) (cti_type cti) ctd_default"
  have "length (emitted_types s) \<le> length (component_info s)"
    by (simp add: emitted_types_def)
  then have l: "length (emitted_types s) < 2 ^ 32" using len by simp
  have "count_component_types (component_data s) = word_of_nat (length (emitted_types s))"
    using count_matches_emitted[OF dm di eq]
    by (simp add: count_component_types_filter emitted_types_def)
  then have n: "unat (count_component_types (component_data s)) = length (emitted_types s)"
    using l by (simp add: u32_unat_of_nat)
  have rs: "read_sections (length (emitted_types s))
      (concat (map (\<lambda>cti. section_bytes (cti_type cti) (?cd cti)) (emitted_types s)) @ []) =
    Some (map (\<lambda>cti. \<lparr> sec_type = cti_type cti, sec_num_instances = ctd_num (?cd cti),
                      sec_owner_indices = ctd_unit_index (?cd cti),
                      sec_payload = ctd_data (?cd cti) @ replicate (unat (section_pad (?cd cti))) 0 \<rparr>)
            (emitted_types s), [])"
    using ok by (intro read_sections_concat) simp
  have st: "map (\<lambda>cti. \<lparr> sec_type = cti_type cti, sec_num_instances = ctd_num (?cd cti),
                      sec_owner_indices = ctd_unit_index (?cd cti),
                      sec_payload = ctd_data (?cd cti) @ replicate (unat (section_pad (?cd cti))) 0 \<rparr>)
            (emitted_types s) = map (stored_section s) (emitted_types s)"
    by (simp add: stored_section_def Let_def)
  show ?thesis
    using rs n by (simp add: read_blob_def blob_eq read_u32_le32 st)
qed



lemma unit_components_unit_AB:
  "unit_components (\<lambda>x. x) (\<lambda>p. None) unit_AB =
     [\<lparr> c_id = ''a'', c_type = 1, c_data = ''A'' \<rparr>, \<lparr> c_id = ''b'', c_type = 2, c_data = ''BC'' \<rparr>]"
  by (simp add: unit_components_def resolve_no_prefab unit_AB_def)

lemma expected_unit_AB:
  "expected_owners (\<lambda>x. x) (\<lambda>p. None) 1 0 [unit_AB] = [0]"
  "expected_owners (\<lambda>x. x) (\<lambda>p. None) 2 0 [unit_AB] = [0]"
  "expected_payload (\<lambda>x. x) (\<lambda>p. None) raw_encoder 1 [unit_AB] = [65]"
  "expected_payload (\<lambda>x. x) (\<lambda>p. None) raw_encoder 2 [unit_AB] = [66, 67]"
  by (simp_all add: unit_components_unit_AB encoded_def raw_encoder_A raw_encoder_BC)

lemma rd32_small:
  "rd32 [1, 0, 0, 0] = 1" "rd32 [2, 0, 0, 0] = 2" "rd32 [6, 0, 0, 0] = 6"
  "rd32 [7, 0, 0, 0] = 7" "rd32 [8, 0, 0, 0] = 8" "rd32 [0, 0, 0, 0] = 0"
  using rd32_le32[of 1] rd32_le32[of 2] rd32_le32[of 6] rd32_le32[of 7] rd32_le32[of 8]
    rd32_le32[of 0]
  by (simp_all add: le32_small)

lemma read_sections_two:
  "read_sections 2 bs =
    (case read_section bs of
       None \<Rightarrow> None
     | Some (sec, bs') \<Rightarrow>
         (case read_section bs' of
            None \<Rightarrow> None
          | Some (sec', bs'') \<Rightarrow> Some ([sec, sec'], bs'')))"
  by (simp add: numeral_2_eq_2 split: option.splits)



text \<open>
  C9 fails on the code. For a chain of five levels the loop reaches \<open>i = 3\<close> with a level
  that has a \<open>prefab\<close> field and parses the parent into \<open>prefabs[4]\<close>, past the four slots
  of the array; no compile error is raised.
\<close>

theorem deep_chain_slot_out_of_bounds:
  "compile_unit_from_json (\<lambda>x. x) deep_files (unit_compiler_empty :: nat UnitCompiler) deep_leaf =
     Inl (SlotOutOfBounds 4, unit_compiler_empty)"
  by (simp add: compile_unit_from_json_def resolve_prefabs_def load_prefabs.simps
      countof_prefabs_def deep_files_def deep_leaf_def empty_doc_def numeral_eq_Suc)

text \<open>
  C8, as the code has it. A unit whose flattened list holds a component of an unregistered
  type is aborted with a compile error. When the components before it compile, the error is
  ``Unknown component'' and the compiler is left in the state reached after those
  components: nothing is added for the unregistered component or for those after it, the
  unit number is not advanced, and the types that no earlier component has keep their
  entries.
\<close>

theorem unknown_component_aborts:
  assumes "resolve_prefabs gp fs doc = Inr (pre @ c # post)"
    and "\<not> sort_map_has (component_data s) (c_type c)"
  shows "(\<exists>msg s'. compile_unit_from_json gp fs s doc = Inl (CompileError msg, s')) \<and>
    (\<forall>s1. compile_components s pre = Inr s1 \<longrightarrow>
       compile_unit_from_json gp fs s doc = Inl (CompileError ''Unknown component'', s1) \<and>
       num_units s1 = num_units s \<and>
       (\<forall>t. t \<notin> c_type ` set pre \<longrightarrow>
          sort_map_get (component_data s1) t ctd_default =
          sort_map_get (component_data s) t ctd_default))"
proof -
  have "c \<in> set (pre @ c # post)" by simp
  from compile_components_unknown[OF this assms(2)]
  have a: "\<exists>msg s'. compile_unit_from_json gp fs s doc = Inl (CompileError msg, s')"
    by (auto simp: compile_unit_from_json_def assms(1))
  have "compile_unit_from_json gp fs s doc = Inl (CompileError ''Unknown component'', s1) \<and>
       num_units s1 = num_units s \<and>
       (\<forall>t. t \<notin> c_type ` set pre \<longrightarrow>
          sort_map_get (component_data s1) t ctd_default =
          sort_map_get (component_data s) t ctd_default)"
    if p: "compile_components s pre = Inr s1" for s1
  proof -
    from compile_components_Inr[OF p]
    have n: "num_units s1 = num_units s"
      and h: "\<not> sort_map_has (component_data s1) (c_type c)"
      and g: "\<forall>t d. t \<notin> c_type ` set pre \<longrightarrow>
          sort_map_get (component_data s1) t d = sort_map_get (component_data s) t d"
      using assms(2) by simp_all
    have "compile_components s (pre @ c # post) = Inl (CompileError ''Unknown component'', s1)"
      using p h by (simp add: compile_components_append compile_component_eq)
    then show ?thesis
      using n g by (simp add: compile_unit_from_json_def assms(1))
  qed
  with a show ?thesis by blast
qed

text \<open>
  C8 fails as stated. The unit has a component of type 1 before the component of the
  unregistered type 99: the compile error comes after the first component was added, and
  the entry of type 1 is left with one instance, one owner index and one payload byte.
\<close>

theorem unknown_component_partial_data_counterexample:
  "compile_unit_from_json (\<lambda>x. x) (\<lambda>p. None) two_type_compiler unknown_type_unit =
     Inl (CompileError ''Unknown component'', add_component_data two_type_compiler 1 [65] 0) \<and>
   sort_map_get (component_data two_type_compiler) 1 ctd_default =
     \<lparr> ctd_compiler = raw_encoder, ctd_num = 0, ctd_unit_index = [], ctd_data = [] \<rparr> \<and>
   sort_map_get (component_data (add_component_data two_type_compiler 1 [65] 0)) 1 ctd_default =
     \<lparr> ctd_compiler = raw_encoder, ctd_num = 1, ctd_unit_index = [0], ctd_data = [65] \<rparr>"
  by (simp add: compile_unit_from_json_def resolve_no_prefab unknown_type_unit_def
      two_type_compiler_eq compile_component_eq sort_map_has_def sort_map_get_def
      ctd_default_def raw_encoder_A add_component_data_def Let_def)

theorem unknown_component_aborts_witness:
  "resolve_prefabs (\<lambda>x. x) (\<lambda>p. None) unknown_type_unit =
     Inr ([\<lparr> c_id = ''a'', c_type = 1, c_data = ''A'' \<rparr>] @
          \<lparr> c_id = ''b'', c_type = 99, c_data = ''B'' \<rparr> # []) \<and>
   \<not> sort_map_has (component_data two_type_compiler) 99 \<and>
   compile_components two_type_compiler [\<lparr> c_id = ''a'', c_type = 1, c_data = ''A'' \<rparr>] =
     Inr (add_component_data two_type_compiler 1 [65] 0) \<and>
   compile_unit_from_json (\<lambda>x. x) (\<lambda>p. None) two_type_compiler unknown_type_unit =
     Inl (CompileError ''Unknown component'', add_component_data two_type_compiler 1 [65] 0) \<and>
   num_units (add_component_data two_type_compiler 1 [65] 0) = num_units two_type_compiler \<and>
   sort_map_get (component_data (add_component_data two_type_compiler 1 [65] 0)) 2 ctd_default =
     sort_map_get (component_data two_type_compiler) 2 ctd_default"
proof -
  let ?c1 = "\<lparr> c_id = ''a'', c_type = 1, c_data = ''A'' \<rparr>"
  let ?c2 = "\<lparr> c_id = ''b'', c_type = 99, c_data = ''B'' \<rparr>"
  have h1: "resolve_prefabs (\<lambda>x. x) (\<lambda>p. None) unknown_type_unit = Inr ([?c1] @ ?c2 # [])"
    by (simp add: resolve_no_prefab unknown_type_unit_def)
  have h2: "\<not> sort_map_has (component_data two_type_compiler) (c_type ?c2)"
    by (simp add: two_type_compiler_eq sort_map_has_def)
  have h3: "compile_components two_type_compiler [?c1] =
      Inr (add_component_data two_type_compiler 1 [65] 0)"
    by (simp add: compile_component_eq two_type_compiler_eq sort_map_has_def sort_map_get_def
        ctd_default_def raw_encoder_A)
  have n: "(2::u32) \<notin> c_type ` set [?c1]" by simp
  from unknown_component_aborts[OF h1 h2] h3 n
  have "compile_unit_from_json (\<lambda>x. x) (\<lambda>p. None) two_type_compiler unknown_type_unit =
      Inl (CompileError ''Unknown component'', add_component_data two_type_compiler 1 [65] 0)"
    and "num_units (add_component_data two_type_compiler 1 [65] 0) = num_units two_type_compiler"
    and "sort_map_get (component_data (add_component_data two_type_compiler 1 [65] 0)) 2 ctd_default =
      sort_map_get (component_data two_type_compiler) 2 ctd_default"
    by blast+
  with h1 h2 h3 show ?thesis by simp
qed

text \<open>
  C7, as the code has it. The chain has at most four levels, the slots of \<open>prefabs\<close>: level
  0 is the unit, each level but the last names a file that is there, which is the next
  level, and the last level has no \<open>prefab\<close> field. When an ancestor level \<open>a\<close> and a more
  specific level \<open>b\<close> both override the component with GUID \<open>g\<close>, which the components of
  the last level hold at index \<open>k\<close>, and no level below \<open>b\<close> overrides it, the unit is
  resolved and the resolved list has at index \<open>k\<close> the value that level \<open>b\<close> gives to \<open>g\<close>
  (the last one, should the level name \<open>g\<close> more than once).
\<close>

theorem leaf_most_override_wins:
  assumes "length chain \<le> countof_prefabs"
    and "chain ! 0 = doc"
    and "\<forall>j. Suc j < length chain \<longrightarrow>
          (\<exists>path. prefab (chain ! j) = Some path \<and> fs path = Some (chain ! Suc j))"
    and "prefab (chain ! (length chain - 1)) = None"
    and "k = component_index_loop gp (components (chain ! (length chain - 1))) g 0"
    and "k \<noteq> UINT32_MAX"
    and "b < a" and "a < length chain"
    and "guid_overrides gp (chain ! a) g \<noteq> []"
    and "guid_overrides gp (chain ! b) g \<noteq> []"
    and "\<forall>j < b. guid_overrides gp (chain ! j) g = []"
  shows "\<exists>comps. resolve_prefabs gp fs doc = Inr comps \<and>
       length comps = length (components (chain ! (length chain - 1))) \<and>
       k < length comps \<and>
       gp (c_id (components (chain ! (length chain - 1)) ! k)) = g \<and>
       comps ! k = last (guid_overrides gp (chain ! b) g)"
proof -
  let ?n = "length chain"
  let ?ps = "(replicate countof_prefabs empty_doc)[0 := doc]"
  have l: "length ?ps = countof_prefabs" by simp
  have p: "(0::nat) < countof_prefabs" by (simp add: countof_prefabs_def)
  have n0: "0 < ?n" using assms(8) by (cases chain) simp_all
  have s: "\<forall>j \<le> 0. ?ps ! j = chain ! j" using assms(2) p by simp
  from load_prefabs_loads[OF assms(1,3,4) l n0 s]
  obtain prefabs where ld: "load_prefabs fs ?ps 0 1 = Inr (prefabs, ?n)"
    and same: "\<forall>j < ?n. prefabs ! j = chain ! j" by auto
  let ?orig = "components (chain ! (?n - 1))"
  let ?comps = "merge_prefabs gp prefabs ?n ?orig 0 ?orig"
  have root: "prefabs ! (?n - 1) = chain ! (?n - 1)" using same n0 by simp
  from component_index_loop_found[OF assms(5)[symmetric] assms(6)]
  have k: "k < length ?orig" and gk: "gp (c_id (?orig ! k)) = g" by simp_all
  have n1: "?n > 1" using assms(7,8) by simp
  then have r: "resolve_prefabs gp fs doc = Inr ?comps"
    using ld root by (simp add: resolve_prefabs_def Let_def)
  have bn: "b < ?n - 0" using assms(7,8) by simp
  have ob: "guid_overrides gp (prefabs ! b) g \<noteq> []" using assms(10) same bn by simp
  have ou: "\<forall>j < b. guid_overrides gp (prefabs ! j) g = []" using assms(11) same bn by simp
  from merge_prefabs_leaf_most[OF assms(5,6) k bn ob ou]
  have "?comps ! k = last (guid_overrides gp (chain ! b) g)" using same bn by simp
  with r k gk show ?thesis
    by (simp add: length_merge_prefabs)
qed

text \<open>
  C7 fails as stated. In the chain of five levels from \<open>over_leaf\<close> the levels 1 and 2 both
  override the component B of the last level, and level 0 does not. The unit is not
  resolved: the parent of level 3 goes to \<open>prefabs[4]\<close>, past the four slots, and there is
  no flattened list that could hold the override of level 1.
\<close>

theorem deep_chain_override_lost_counterexample:
  "prefab over_leaf = Some ''o1'' \<and> over_files ''o1'' = Some over_1 \<and>
   prefab over_1 = Some ''o2'' \<and> over_files ''o2'' = Some over_2 \<and>
   prefab over_2 = Some ''o3'' \<and> over_files ''o3'' = Some over_3 \<and>
   prefab over_3 = Some ''o4'' \<and> over_files ''o4'' = Some over_4 \<and>
   prefab over_4 = None \<and>
   component_index_loop (\<lambda>x. x) (components over_4) guid_B 0 = 1 \<and>
   guid_overrides (\<lambda>x. x) over_2 guid_B = [comp_B_grand] \<and>
   guid_overrides (\<lambda>x. x) over_1 guid_B = [comp_B_parent] \<and>
   guid_overrides (\<lambda>x. x) over_leaf guid_B = [] \<and>
   resolve_prefabs (\<lambda>x. x) over_files over_leaf = Inl (SlotOutOfBounds 4)"
proof -
  have links: "prefab over_leaf = Some ''o1''" "over_files ''o1'' = Some over_1"
    "prefab over_1 = Some ''o2''" "over_files ''o2'' = Some over_2"
    "prefab over_2 = Some ''o3''" "over_files ''o3'' = Some over_3"
    "prefab over_3 = Some ''o4''" "over_files ''o4'' = Some over_4"
    "prefab over_4 = None"
    by (simp_all add: over_leaf_def over_1_def over_2_def over_3_def over_4_def over_files_def)
  have k: "component_index_loop (\<lambda>x. x) (components over_4) guid_B 0 = 1"
    by (simp add: over_4_def index_guid_B)
  have o2: "guid_overrides (\<lambda>x. x) over_2 guid_B = [comp_B_grand]"
    by (simp add: guid_overrides_def over_2_def take_guid_B)
  have o1: "guid_overrides (\<lambda>x. x) over_1 guid_B = [comp_B_parent]"
    by (simp add: guid_overrides_def over_1_def take_guid_B)
  have o0: "guid_overrides (\<lambda>x. x) over_leaf guid_B = []"
    by (simp add: guid_overrides_def over_leaf_def)
  have r: "resolve_prefabs (\<lambda>x. x) over_files over_leaf = Inl (SlotOutOfBounds 4)"
    using links
    by (simp add: resolve_prefabs_def load_prefabs.simps countof_prefabs_def numeral_eq_Suc)
  from links k o2 o1 o0 r show ?thesis by blast
qed

theorem leaf_most_override_wins_witness:
  "length [child_unit, parent_doc, grand_doc] \<le> countof_prefabs \<and>
   prefab child_unit = Some ''parent'' \<and> family_files ''parent'' = Some parent_doc \<and>
   prefab parent_doc = Some ''grand'' \<and> family_files ''grand'' = Some grand_doc \<and>
   prefab grand_doc = None \<and>
   component_index_loop (\<lambda>x. x) (components grand_doc) guid_B 0 = 1 \<and>
   guid_overrides (\<lambda>x. x) grand_doc guid_B = [comp_B_grand] \<and>
   guid_overrides (\<lambda>x. x) parent_doc guid_B = [comp_B_parent] \<and>
   guid_overrides (\<lambda>x. x) child_unit guid_B = [] \<and>
   (\<exists>comps. resolve_prefabs (\<lambda>x. x) family_files child_unit = Inr comps \<and>
      length comps = 2 \<and> comps ! 1 = comp_B_parent) \<and>
   length [over_1, over_2, over_3, over_4] = countof_prefabs \<and>
   (\<exists>comps. resolve_prefabs (\<lambda>x. x) over_files over_1 = Inr comps \<and>
      length comps = 2 \<and> comps ! 1 = comp_B_parent)"
proof -
  let ?chain = "[child_unit, parent_doc, grand_doc]"
  have h1: "length ?chain \<le> countof_prefabs" by (simp add: countof_prefabs_def)
  have h2: "?chain ! 0 = child_unit" by simp
  have links: "prefab child_unit = Some ''parent''" "family_files ''parent'' = Some parent_doc"
    "prefab parent_doc = Some ''grand''" "family_files ''grand'' = Some grand_doc"
    "prefab grand_doc = None"
    by (simp_all add: child_unit_def parent_doc_def grand_doc_def family_files_def)
  have h3: "\<forall>j. Suc j < length ?chain \<longrightarrow>
      (\<exists>path. prefab (?chain ! j) = Some path \<and> family_files path = Some (?chain ! Suc j))"
    using links by (simp add: less_Suc_eq)
  have h4: "prefab (?chain ! (length ?chain - 1)) = None" using links by simp
  have h5: "(1::nat) = component_index_loop (\<lambda>x. x) (components (?chain ! (length ?chain - 1))) guid_B 0"
    by (simp add: grand_doc_def index_guid_B)
  have h6: "(1::nat) \<noteq> UINT32_MAX" by (simp add: UINT32_MAX_def)
  have h7: "(1::nat) < 2" and h8: "(2::nat) < length ?chain" by simp_all
  have og: "guid_overrides (\<lambda>x. x) grand_doc guid_B = [comp_B_grand]"
    by (simp add: guid_overrides_def grand_doc_def take_guid_B)
  have op: "guid_overrides (\<lambda>x. x) parent_doc guid_B = [comp_B_parent]"
    by (simp add: guid_overrides_def parent_doc_def take_guid_B)
  have oc: "guid_overrides (\<lambda>x. x) child_unit guid_B = []"
    by (simp add: guid_overrides_def child_unit_def)
  have h9: "guid_overrides (\<lambda>x. x) (?chain ! 2) guid_B \<noteq> []" using og by simp
  have h10: "guid_overrides (\<lambda>x. x) (?chain ! 1) guid_B \<noteq> []" using op by simp
  have h11: "\<forall>j < 1. guid_overrides (\<lambda>x. x) (?chain ! j) guid_B = []" using oc by simp
  from leaf_most_override_wins[OF h1 h2 h3 h4 h5 h6 h7 h8 h9 h10 h11]
  have r1: "\<exists>comps. resolve_prefabs (\<lambda>x. x) family_files child_unit = Inr comps \<and>
      length comps = 2 \<and> comps ! 1 = comp_B_parent"
    using op by (auto simp: grand_doc_def)
  let ?deep = "[over_1, over_2, over_3, over_4]"
  have d1: "length ?deep \<le> countof_prefabs" and d1': "length ?deep = countof_prefabs"
    by (simp_all add: countof_prefabs_def)
  have d2: "?deep ! 0 = over_1" by simp
  have d3: "\<forall>j. Suc j < length ?deep \<longrightarrow>
      (\<exists>path. prefab (?deep ! j) = Some path \<and> over_files path = Some (?deep ! Suc j))"
    by (simp add: less_Suc_eq over_1_def over_2_def over_3_def over_files_def)
  have d4: "prefab (?deep ! (length ?deep - 1)) = None" by (simp add: over_4_def)
  have d5: "(1::nat) = component_index_loop (\<lambda>x. x) (components (?deep ! (length ?deep - 1))) guid_B 0"
    by (simp add: over_4_def index_guid_B)
  have d7: "(0::nat) < 1" and d8: "(1::nat) < length ?deep" by simp_all
  have o2: "guid_overrides (\<lambda>x. x) over_2 guid_B = [comp_B_grand]"
    by (simp add: guid_overrides_def over_2_def take_guid_B)
  have o1: "guid_overrides (\<lambda>x. x) over_1 guid_B = [comp_B_parent]"
    by (simp add: guid_overrides_def over_1_def take_guid_B)
  have d9: "guid_overrides (\<lambda>x. x) (?deep ! 1) guid_B \<noteq> []" using o2 by simp
  have d10: "guid_overrides (\<lambda>x. x) (?deep ! 0) guid_B \<noteq> []" using o1 by simp
  have d11: "\<forall>j < 0. guid_overrides (\<lambda>x. x) (?deep ! j) guid_B = []" by simp
  from leaf_most_override_wins[OF d1 d2 d3 d4 d5 h6 d7 d8 d9 d10 d11]
  have r2: "\<exists>comps. resolve_prefabs (\<lambda>x. x) over_files over_1 = Inr comps \<and>
      length comps = 2 \<and> comps ! 1 = comp_B_parent"
    using o1 by (auto simp: over_4_def)
  from h1 links h5 og op oc r1 d1' r2 show ?thesis
    by (simp add: grand_doc_def)
qed



text \<open>
  C1, as the code has it. After any list of units has been compiled by a compiler with
  distinct registered types, \<open>blob\<close> is the header, which counts the sections, followed by
  one section for each type with a count above 0, in the order of the listing, which is
  sorted by priority and then by hash. The size field of a sub-header is the byte size of
  the owner indices plus that of the payload plus the number of padding bytes that follow
  the payload.
\<close>

theorem blob_sections_in_priority_order:
  assumes "distinct (map fst regs)"
    and "compile_multiple_units gp fs (register_list unit_compiler_empty regs) docs = Inr s"
  shows "blob version s =
      le32 version @ le32 (num_units s) @ le32 (count_component_types (component_data s)) @
      concat (map (\<lambda>cti. section_bytes (cti_type cti)
                            (sort_map_get (component_data s) (cti_type cti) ctd_default))
                  (emitted_types s)) \<and>
    count_component_types (component_data s) = word_of_nat (length (emitted_types s)) \<and>
    sorted (map cti_key (emitted_types s)) \<and>
    distinct (map cti_type (emitted_types s)) \<and>
    set (map cti_type (emitted_types s)) =
      {t. t \<in> set (map fst regs) \<and> ctd_num (sort_map_get (component_data s) t ctd_default) > 0} \<and>
    (\<forall>t ctd. section_bytes t ctd =
       le32 t @ le32 (ctd_num ctd) @
       le32 (word_of_nat (4 * length (ctd_unit_index ctd) + length (ctd_data ctd)
                          + unat (section_pad ctd))) @
       concat (map le32 (ctd_unit_index ctd)) @ ctd_data ctd @
       replicate (unat (section_pad ctd)) 0)"
proof -
  note r = registered_compile[OF assms]
  have a: "sorted (map cti_key (emitted_types s))"
    unfolding emitted_types_def using r(6) by (rule sorted_filter)
  have b: "distinct (map cti_type (emitted_types s))"
    unfolding emitted_types_def using r(2) by (rule distinct_map_filter)
  have c: "set (map cti_type (emitted_types s)) =
      {t. t \<in> set (map fst regs) \<and> ctd_num (sort_map_get (component_data s) t ctd_default) > 0}"
  proof -
    let ?P = "\<lambda>t. ctd_num (sort_map_get (component_data s) t ctd_default) > 0"
    have "set (map cti_type (emitted_types s)) = {t \<in> set (map cti_type (component_info s)). ?P t}"
      by (auto simp: emitted_types_def)
    then show ?thesis by (simp only: r(4))
  qed
  have n: "count_component_types (component_data s) = word_of_nat (length (emitted_types s))"
    using count_matches_emitted[OF r(1) r(2) r(3)]
    by (simp add: count_component_types_filter emitted_types_def)
  show ?thesis
    using a b c n blob_eq[of version s] section_bytes_size_field by blast
qed

theorem blob_sections_in_priority_order_witness:
  "distinct (map fst [(2::u32, raw_encoder, 1::nat), (1, raw_encoder, 0)]) \<and>
   compile_multiple_units (\<lambda>x. x) (\<lambda>p. None)
     (register_list unit_compiler_empty [(2, raw_encoder, 1), (1, raw_encoder, 0)]) [unit_AB] =
     Inr compiled_AB \<and>
   blob 7 compiled_AB =
     le32 7 @ le32 (num_units compiled_AB) @
     le32 (count_component_types (component_data compiled_AB)) @
     concat (map (\<lambda>cti. section_bytes (cti_type cti)
                           (sort_map_get (component_data compiled_AB) (cti_type cti) ctd_default))
                 (emitted_types compiled_AB)) \<and>
   count_component_types (component_data compiled_AB) =
     word_of_nat (length (emitted_types compiled_AB)) \<and>
   sorted (map cti_key (emitted_types compiled_AB)) \<and>
   distinct (map cti_type (emitted_types compiled_AB)) \<and>
   map cti_type (emitted_types compiled_AB) = [1, 2]"
proof -
  have h1: "distinct (map fst [(2::u32, raw_encoder, 1::nat), (1, raw_encoder, 0)])"
    by simp
  have h2: "compile_multiple_units (\<lambda>x. x) (\<lambda>p. None)
     (register_list unit_compiler_empty [(2, raw_encoder, 1), (1, raw_encoder, 0)]) [unit_AB] =
     Inr compiled_AB"
    using compile_unit_AB by (simp only: two_type_compiler_registered)
  have e: "map cti_type (emitted_types compiled_AB) = [1, 2]"
    by (simp add: emitted_types_compiled_AB)
  from blob_sections_in_priority_order[OF h1 h2, of 7] h1 h2 e show ?thesis
    by blast
qed

text \<open>
  C1 fails as stated. In the blob of \<open>compiled_AB\<close> the first section has four bytes of
  owner indices and one byte of payload, and its size field, at offset 20, holds 6; one
  padding byte follows the payload, and the second sub-header starts at offset 30, which is
  not a multiple of the alignment 4.
\<close>

theorem blob_size_and_padding_counterexample:
  "compile_multiple_units (\<lambda>x. x) (\<lambda>p. None) two_type_compiler [unit_AB] = Inr compiled_AB \<and>
   blob 7 compiled_AB =
     [7, 0, 0, 0,  1, 0, 0, 0,  2, 0, 0, 0,
      1, 0, 0, 0,  1, 0, 0, 0,  6, 0, 0, 0,  0, 0, 0, 0,  65,  0,
      2, 0, 0, 0,  1, 0, 0, 0,  8, 0, 0, 0,  0, 0, 0, 0,  66, 67,  0, 0] \<and>
   sort_map_get (component_data compiled_AB) 1 ctd_default =
     \<lparr> ctd_compiler = raw_encoder, ctd_num = 1, ctd_unit_index = [0], ctd_data = [65] \<rparr> \<and>
   4 * length [0::u32] + length [65::u8] = 5 \<and>
   rd32 (take 4 (drop 20 (blob 7 compiled_AB))) = 6 \<and>
   drop 30 (blob 7 compiled_AB) =
     section_bytes 2 (sort_map_get (component_data compiled_AB) 2 ctd_default) \<and>
   (30::nat) mod unat alignof_ComponentData = 2"
proof -
  have a: "sort_map_get (component_data compiled_AB) 1 ctd_default =
     \<lparr> ctd_compiler = raw_encoder, ctd_num = 1, ctd_unit_index = [0], ctd_data = [65] \<rparr>"
    by (simp add: compiled_AB_def sort_map_get_def)
  have b: "section_bytes 2 (sort_map_get (component_data compiled_AB) 2 ctd_default) =
      [2, 0, 0, 0,  1, 0, 0, 0,  8, 0, 0, 0,  0, 0, 0, 0,  66, 67,  0, 0]"
    by (simp add: compiled_AB_def sort_map_get_def section_bytes_def section_size_def
        section_pad_def alignof_ComponentData_def le32_small u32_mod4 replicate_two_zero)
  have c: "rd32 [6, 0, 0, 0] = 6"
    using rd32_le32[of 6] by (simp add: le32_small)
  have d: "4 * length [0::u32] + length [65::u8] = 5" by simp
  have e: "rd32 (take 4 (drop 20 (blob 7 compiled_AB))) = 6"
    by (simp add: blob_compiled_AB c)
  have f: "drop 30 (blob 7 compiled_AB) =
     section_bytes 2 (sort_map_get (component_data compiled_AB) 2 ctd_default)"
    by (simp add: blob_compiled_AB b)
  have g: "(30::nat) mod unat alignof_ComponentData = 2"
    by (simp add: alignof_ComponentData_def)
  show ?thesis
    using compile_unit_AB blob_compiled_AB a d e f g by blast
qed



text \<open>
  C2, as the code has it. A compiler with distinct registered types compiles a list of
  units, and no section outgrows an \<open>u32\<close>. Reading the blob back gives the version, the
  number of units, and one section for each type that has instances, in the order of the
  listing. The section of a type has its number of instances, the unit numbers of its
  instances in order, and as payload the bytes its encoder produced, one instance after the
  other, followed by the padding bytes, all zero, that \<open>blob\<close> wrote after them and
  counted into the size of the section.
\<close>

theorem blob_round_trip:
  assumes "distinct (map fst regs)" and "length regs < 2 ^ 32"
    and "compile_multiple_units gp fs (register_list unit_compiler_empty regs) docs = Inr s"
    and "\<forall>(t, f, p) \<in> set regs.
           4 * length (expected_owners gp fs t 0 docs) +
           length (expected_payload gp fs f t docs) + 3 < 2 ^ 32"
  shows "read_blob (blob version s) =
      Some (version, word_of_nat (length docs), map (stored_section s) (emitted_types s), []) \<and>
    distinct (map cti_type (emitted_types s)) \<and>
    (\<forall>t f p. (t, f, p) \<in> set regs \<longrightarrow>
       (t \<in> set (map cti_type (emitted_types s)) \<longleftrightarrow> expected_owners gp fs t 0 docs \<noteq> []) \<and>
       unat (word_of_nat (length (expected_owners gp fs t 0 docs)) :: u32) =
         length (expected_owners gp fs t 0 docs) \<and>
       (\<forall>cti. cti_type cti = t \<longrightarrow>
          stored_section s cti =
            \<lparr> sec_type = t,
              sec_num_instances = word_of_nat (length (expected_owners gp fs t 0 docs)),
              sec_owner_indices = expected_owners gp fs t 0 docs,
              sec_payload = expected_payload gp fs f t docs @
                replicate (unat (section_pad (sort_map_get (component_data s) t ctd_default))) 0 \<rparr>))"
proof -
  note r = registered_compile[OF assms(1,3)]
  let ?cd = "\<lambda>t. sort_map_get (component_data s) t ctd_default"
  have entry: "?cd t = \<lparr> ctd_compiler = f,
        ctd_num = word_of_nat (length (expected_owners gp fs t 0 docs)),
        ctd_unit_index = expected_owners gp fs t 0 docs,
        ctd_data = expected_payload gp fs f t docs \<rparr>"
    and bound: "4 * length (expected_owners gp fs t 0 docs) +
        length (expected_payload gp fs f t docs) + 3 < 2 ^ 32"
    and count: "unat (word_of_nat (length (expected_owners gp fs t 0 docs)) :: u32) =
        length (expected_owners gp fs t 0 docs)"
    if m: "(t, f, p) \<in> set regs" for t f p
  proof -
    show "?cd t = \<lparr> ctd_compiler = f,
        ctd_num = word_of_nat (length (expected_owners gp fs t 0 docs)),
        ctd_unit_index = expected_owners gp fs t 0 docs,
        ctd_data = expected_payload gp fs f t docs \<rparr>"
      using registered_compile_entry[OF assms(1,3) m] .
    show b: "4 * length (expected_owners gp fs t 0 docs) +
        length (expected_payload gp fs f t docs) + 3 < 2 ^ 32"
      using assms(4) m by blast
    then have "length (expected_owners gp fs t 0 docs) < 2 ^ 32" by simp
    then show "unat (word_of_nat (length (expected_owners gp fs t 0 docs)) :: u32) =
        length (expected_owners gp fs t 0 docs)"
      by (rule u32_unat_of_nat)
  qed
  have reg: "\<exists>f p. (t, f, p) \<in> set regs" if "t \<in> set (map cti_type (component_info s))" for t
  proof -
    from that r(4) have "t \<in> set (map fst regs)" by simp
    then show ?thesis by force
  qed
  have ok: "\<forall>cti \<in> set (emitted_types s).
       unat (ctd_num (?cd (cti_type cti))) = length (ctd_unit_index (?cd (cti_type cti))) \<and>
       4 * length (ctd_unit_index (?cd (cti_type cti))) +
         length (ctd_data (?cd (cti_type cti))) + 3 < 2 ^ 32"
  proof
    fix cti assume "cti \<in> set (emitted_types s)"
    then have "cti_type cti \<in> set (map cti_type (component_info s))"
      by (simp add: emitted_types_def)
    from reg[OF this] obtain f p where m: "(cti_type cti, f, p) \<in> set regs" by blast
    show "unat (ctd_num (?cd (cti_type cti))) = length (ctd_unit_index (?cd (cti_type cti))) \<and>
       4 * length (ctd_unit_index (?cd (cti_type cti))) +
         length (ctd_data (?cd (cti_type cti))) + 3 < 2 ^ 32"
      using entry[OF m] bound[OF m] count[OF m] by simp
  qed
  have len: "length (component_info s) < 2 ^ 32" using r(5) assms(2) by simp
  have rb: "read_blob (blob version s) =
      Some (version, word_of_nat (length docs), map (stored_section s) (emitted_types s), [])"
    using read_blob_blob[OF r(1) r(2) r(3) len ok, of version] r(7) by simp
  have di: "distinct (map cti_type (emitted_types s))"
    unfolding emitted_types_def using r(2) by (rule distinct_map_filter)
  have per_type:
    "(t \<in> set (map cti_type (emitted_types s)) \<longleftrightarrow> expected_owners gp fs t 0 docs \<noteq> []) \<and>
       unat (word_of_nat (length (expected_owners gp fs t 0 docs)) :: u32) =
         length (expected_owners gp fs t 0 docs) \<and>
       (\<forall>cti. cti_type cti = t \<longrightarrow>
          stored_section s cti =
            \<lparr> sec_type = t,
              sec_num_instances = word_of_nat (length (expected_owners gp fs t 0 docs)),
              sec_owner_indices = expected_owners gp fs t 0 docs,
              sec_payload = expected_payload gp fs f t docs @
                replicate (unat (section_pad (sort_map_get (component_data s) t ctd_default))) 0 \<rparr>)"
    if m: "(t, f, p) \<in> set regs" for t f p
  proof -
    let ?n = "length (expected_owners gp fs t 0 docs)"
    have tin: "t \<in> set (map cti_type (component_info s))"
      using m r(4) by force
    have "0 < ctd_num (?cd t) \<longleftrightarrow> ?n \<noteq> 0"
      using count[OF m] by (simp add: entry[OF m] word_greater_zero_iff unat_eq_zero[symmetric])
    moreover have "t \<in> set (map cti_type (emitted_types s)) \<longleftrightarrow> 0 < ctd_num (?cd t)"
      using tin by (auto simp: emitted_types_def)
    ultimately have a: "t \<in> set (map cti_type (emitted_types s)) \<longleftrightarrow>
        expected_owners gp fs t 0 docs \<noteq> []" by simp
    have b': "4 * length (ctd_unit_index (?cd t)) + length (ctd_data (?cd t)) + 3 < 2 ^ 32"
      using bound[OF m] by (simp add: entry[OF m])
    have c: "\<forall>cti. cti_type cti = t \<longrightarrow>
          stored_section s cti =
            \<lparr> sec_type = t,
              sec_num_instances = word_of_nat ?n,
              sec_owner_indices = expected_owners gp fs t 0 docs,
              sec_payload = expected_payload gp fs f t docs @
                replicate (unat (section_pad (sort_map_get (component_data s) t ctd_default))) 0 \<rparr>"
      by (simp add: stored_section_def Let_def entry[OF m])
    from a count[OF m] c show ?thesis by blast
  qed
  from rb di per_type show ?thesis by blast
qed

text \<open>
  C2 fails as stated. Read back as the claim says, the section of type 1 in the blob of
  \<open>compiled_AB\<close> has the payload bytes 65 and 0, where the encoder produced the one byte
  65; the section of type 2 has two bytes more than the encoder produced.
\<close>

theorem blob_round_trip_payload_counterexample:
  "compile_multiple_units (\<lambda>x. x) (\<lambda>p. None) two_type_compiler [unit_AB] = Inr compiled_AB \<and>
   expected_payload (\<lambda>x. x) (\<lambda>p. None) raw_encoder 1 [unit_AB] = [65] \<and>
   expected_payload (\<lambda>x. x) (\<lambda>p. None) raw_encoder 2 [unit_AB] = [66, 67] \<and>
   read_blob (blob 7 compiled_AB) =
     Some (7, 1,
           [\<lparr> sec_type = 1, sec_num_instances = 1, sec_owner_indices = [0],
              sec_payload = [65, 0] \<rparr>,
            \<lparr> sec_type = 2, sec_num_instances = 1, sec_owner_indices = [0],
              sec_payload = [66, 67, 0, 0] \<rparr>],
           [])"
proof -
  have "read_blob (blob 7 compiled_AB) =
     Some (7, 1,
           [\<lparr> sec_type = 1, sec_num_instances = 1, sec_owner_indices = [0],
              sec_payload = [65, 0] \<rparr>,
            \<lparr> sec_type = 2, sec_num_instances = 1, sec_owner_indices = [0],
              sec_payload = [66, 67, 0, 0] \<rparr>],
           [])"
    by (simp add: blob_compiled_AB read_blob_def read_u32_def rd32_small read_sections_two
        read_section_def read_bytes_def)
  with compile_unit_AB expected_unit_AB(3,4) show ?thesis by blast
qed



theorem blob_round_trip_witness:
  "distinct (map fst [(2::u32, raw_encoder, 1::nat), (1, raw_encoder, 0)]) \<and>
   length [(2::u32, raw_encoder, 1::nat), (1, raw_encoder, 0)] < 2 ^ 32 \<and>
   compile_multiple_units (\<lambda>x. x) (\<lambda>p. None)
     (register_list unit_compiler_empty [(2, raw_encoder, 1), (1, raw_encoder, 0)]) [unit_AB] =
     Inr compiled_AB \<and>
   list_all (\<lambda>(t, f, p). 4 * length (expected_owners (\<lambda>x. x) (\<lambda>p. None) t 0 [unit_AB]) +
             length (expected_payload (\<lambda>x. x) (\<lambda>p. None) f t [unit_AB]) + 3 < 2 ^ 32)
     [(2::u32, raw_encoder, 1::nat), (1, raw_encoder, 0)] \<and>
   read_blob (blob 7 compiled_AB) =
     Some (7, word_of_nat (length [unit_AB]),
           map (stored_section compiled_AB) (emitted_types compiled_AB), []) \<and>
   stored_section compiled_AB \<lparr> cti_type = 1, cti_spawn_order = 0 \<rparr> =
     \<lparr> sec_type = 1, sec_num_instances = 1, sec_owner_indices = [0],
       sec_payload = [65, 0] \<rparr>"
proof -
  let ?regs = "[(2::u32, raw_encoder, 1::nat), (1, raw_encoder, 0)]"
  have h1: "distinct (map fst ?regs)" by simp
  have h2: "length ?regs < 2 ^ 32" by simp
  have h3: "compile_multiple_units (\<lambda>x. x) (\<lambda>p. None)
     (register_list unit_compiler_empty ?regs) [unit_AB] = Inr compiled_AB"
    using compile_unit_AB by (simp only: two_type_compiler_registered)
  have h4: "\<forall>(t, f, p) \<in> set ?regs.
      4 * length (expected_owners (\<lambda>x. x) (\<lambda>p. None) t 0 [unit_AB]) +
      length (expected_payload (\<lambda>x. x) (\<lambda>p. None) f t [unit_AB]) + 3 < 2 ^ 32"
    by (simp add: unit_components_unit_AB encoded_def raw_encoder_A raw_encoder_BC)
  have m: "(1, raw_encoder, 0) \<in> set ?regs" by simp
  note t = blob_round_trip[OF h1 h2 h3 h4, of 7]
  from t have rb: "read_blob (blob 7 compiled_AB) =
     Some (7, word_of_nat (length [unit_AB]),
           map (stored_section compiled_AB) (emitted_types compiled_AB), [])" by blast
  from t m have "\<forall>cti. cti_type cti = 1 \<longrightarrow>
      stored_section compiled_AB cti =
        \<lparr> sec_type = 1,
          sec_num_instances = word_of_nat (length (expected_owners (\<lambda>x. x) (\<lambda>p. None) 1 0 [unit_AB])),
          sec_owner_indices = expected_owners (\<lambda>x. x) (\<lambda>p. None) 1 0 [unit_AB],
          sec_payload = expected_payload (\<lambda>x. x) (\<lambda>p. None) raw_encoder 1 [unit_AB] @
            replicate (unat (section_pad (sort_map_get (component_data compiled_AB) 1 ctd_default))) 0 \<rparr>"
    by blast
  then have st: "stored_section compiled_AB \<lparr> cti_type = 1, cti_spawn_order = 0 \<rparr> =
     \<lparr> sec_type = 1, sec_num_instances = 1, sec_owner_indices = [0],
       sec_payload = [65, 0] \<rparr>"
    by (simp add: unit_components_unit_AB encoded_def raw_encoder_A compiled_AB_def
        sort_map_get_def section_pad_def section_size_def alignof_ComponentData_def u32_mod4)
  have l4: "list_all (\<lambda>(t, f, p). 4 * length (expected_owners (\<lambda>x. x) (\<lambda>p. None) t 0 [unit_AB]) +
             length (expected_payload (\<lambda>x. x) (\<lambda>p. None) f t [unit_AB]) + 3 < 2 ^ 32) ?regs"
    using h4 by (simp add: list_all_iff)
  from h1 h2 h3 l4 rb st show ?thesis by blast
qed

end
